theory Spec2Isabelle
  imports Complex_Main "HOL-Library.Log_Nat"
begin

section \<open>The video segmentation planner of ved (src/ved/video/utils.py)\<close>

text \<open>
  The planner is the generator \<^verbatim>\<open>gen_split_part_info(video_path, length, suffix)\<close>.
  It obtains the part length from \<^verbatim>\<open>convert_to_seconds(length)\<close> and the duration of the
  source from \<^verbatim>\<open>extract_video_info(video_path)\<close>; both call the media library, so the
  model takes their results, \<open>part_len\<close> and \<open>video_len\<close>, as arguments. Both are Python
  floats, and every operation of the planner on them is a float operation.
\<close>

subsection \<open>Python floats\<close>

text \<open>
  A Python float is an IEEE 754 binary64 number: a finite value (a rational number here),
  an infinity or a NaN. The two zeros are not distinguished: they compare equal,
  \<^verbatim>\<open>int\<close> and \<^verbatim>\<open>math.ceil\<close> map both to 0, and the planner never divides by a
  computed zero; only \<^verbatim>\<open>str\<close> tells them apart, and the sign it would render on a zero
  offset is not modelled.
\<close>

datatype double = Fin rat | PInf | NInf | NaN

text \<open>The exponent \<open>e\<close> with \<open>2 ^ e \<le> x < 2 ^ (e + 1)\<close>, for \<open>x > 0\<close>.\<close>

definition floor_log2 :: "rat \<Rightarrow> int" where
  "floor_log2 x = (if 1 \<le> x then bitlen \<lfloor>x\<rfloor> - 1 else - bitlen (\<lceil>1 / x\<rceil> - 1))"

text \<open>The nearest integer, a tie going to the even one.\<close>

definition round_half_even :: "rat \<Rightarrow> int" where
  "round_half_even z =
     (let f = \<lfloor>z\<rfloor>; r = z - of_int f
      in if r < 1 / 2 then f else if 1 / 2 < r then f + 1 else if even f then f else f + 1)"

text \<open>
  Rounding of a positive number to binary64, to nearest with ties to even: 53 significant
  bits, the last one worth \<open>2 ^ (e - 52)\<close> and never less than \<open>2 ^ (- 1074)\<close>
  (subnormal numbers); a result of \<open>2 ^ 1024\<close> or more is infinite.
\<close>

definition round_pos :: "rat \<Rightarrow> double" where
  "round_pos x =
     (let e = floor_log2 x
      in if 1024 \<le> e then PInf
         else let k = max e (- 1022) - 52;
                  q = round_half_even (x / power_int 2 k)
              in if e = 1023 \<and> q = 2 ^ 53 then PInf else Fin (of_int q * power_int 2 k))"

fun dneg :: "double \<Rightarrow> double" where
  "dneg (Fin r) = Fin (- r)"
| "dneg PInf = NInf"
| "dneg NInf = PInf"
| "dneg NaN = NaN"

definition round_double :: "rat \<Rightarrow> double" where
  "round_double x =
     (if x = 0 then Fin 0 else if 0 < x then round_pos x else dneg (round_pos (- x)))"

text \<open>The exceptions the planner can raise.\<close>

datatype error = ZeroDivisionError | OverflowError | ValueError

text \<open>
  \<^verbatim>\<open>a / b\<close> on floats: Python raises when the divisor is zero, whatever the dividend;
  otherwise the quotient is rounded, and one that is too large is infinite.
\<close>

fun fdiv :: "double \<Rightarrow> double \<Rightarrow> error + double" where
  "fdiv a (Fin b) =
     (if b = 0 then Inl ZeroDivisionError
      else Inr (case a of
                  Fin x \<Rightarrow> round_double (x / b)
                | PInf \<Rightarrow> (if 0 < b then PInf else NInf)
                | NInf \<Rightarrow> (if 0 < b then NInf else PInf)
                | NaN \<Rightarrow> NaN))"
| "fdiv a PInf = Inr (case a of Fin x \<Rightarrow> Fin 0 | PInf \<Rightarrow> NaN | NInf \<Rightarrow> NaN | NaN \<Rightarrow> NaN)"
| "fdiv a NInf = Inr (case a of Fin x \<Rightarrow> Fin 0 | PInf \<Rightarrow> NaN | NInf \<Rightarrow> NaN | NaN \<Rightarrow> NaN)"
| "fdiv a NaN = Inr NaN"

text \<open>\<^verbatim>\<open>a - b\<close> and \<^verbatim>\<open>a * b\<close> on floats never raise.\<close>

fun fsub :: "double \<Rightarrow> double \<Rightarrow> double" where
  "fsub (Fin a) (Fin b) = round_double (a - b)"
| "fsub (Fin a) PInf = NInf"
| "fsub (Fin a) NInf = PInf"
| "fsub PInf (Fin b) = PInf"
| "fsub PInf NInf = PInf"
| "fsub NInf (Fin b) = NInf"
| "fsub NInf PInf = NInf"
| "fsub PInf PInf = NaN"
| "fsub NInf NInf = NaN"
| "fsub NaN b = NaN"
| "fsub a NaN = NaN"

fun fmul :: "double \<Rightarrow> double \<Rightarrow> double" where
  "fmul (Fin a) (Fin b) = round_double (a * b)"
| "fmul (Fin a) PInf = (if a = 0 then NaN else if 0 < a then PInf else NInf)"
| "fmul (Fin a) NInf = (if a = 0 then NaN else if 0 < a then NInf else PInf)"
| "fmul PInf (Fin b) = (if b = 0 then NaN else if 0 < b then PInf else NInf)"
| "fmul NInf (Fin b) = (if b = 0 then NaN else if 0 < b then NInf else PInf)"
| "fmul PInf PInf = PInf"
| "fmul PInf NInf = NInf"
| "fmul NInf PInf = NInf"
| "fmul NInf NInf = PInf"
| "fmul NaN b = NaN"
| "fmul a NaN = NaN"

text \<open>\<^verbatim>\<open>math.fabs\<close>\<close>

fun fabs :: "double \<Rightarrow> double" where
  "fabs (Fin a) = Fin \<bar>a\<bar>"
| "fabs PInf = PInf"
| "fabs NInf = PInf"
| "fabs NaN = NaN"

text \<open>The comparisons \<^verbatim>\<open>a < b\<close> and \<^verbatim>\<open>a <= b\<close>; both are false when a NaN is involved.\<close>

fun dless :: "double \<Rightarrow> double \<Rightarrow> bool" where
  "dless (Fin a) (Fin b) = (a < b)"
| "dless (Fin a) PInf = True"
| "dless NInf (Fin b) = True"
| "dless NInf PInf = True"
| "dless a b = False"

fun dle :: "double \<Rightarrow> double \<Rightarrow> bool" where
  "dle (Fin a) (Fin b) = (a \<le> b)"
| "dle (Fin a) PInf = True"
| "dle NInf (Fin b) = True"
| "dle NInf PInf = True"
| "dle PInf PInf = True"
| "dle NInf NInf = True"
| "dle a b = False"

text \<open>
  The conversion of an integer operand in \<^verbatim>\<open>float - int\<close> and \<^verbatim>\<open>int * float\<close>: rounded
  to nearest. Python raises for an integer beyond the range of the floats; the planner
  converts only the results of \<^verbatim>\<open>int\<close> and \<^verbatim>\<open>math.ceil\<close> on a finite float and smaller
  non-negative integers, all within the range.
\<close>

definition double_of_int :: "int \<Rightarrow> double" where
  "double_of_int i = round_double (of_int i)"

text \<open>
  \<^verbatim>\<open>int(x)\<close> truncates a finite float towards zero; it raises \<^verbatim>\<open>OverflowError\<close> on an
  infinity and \<^verbatim>\<open>ValueError\<close> on a NaN. \<^verbatim>\<open>math.ceil(x)\<close> raises in the same way.
\<close>

definition trunc_rat :: "rat \<Rightarrow> int" where
  "trunc_rat r = (if 0 \<le> r then \<lfloor>r\<rfloor> else \<lceil>r\<rceil>)"

fun py_int :: "double \<Rightarrow> error + int" where
  "py_int (Fin r) = Inr (trunc_rat r)"
| "py_int PInf = Inl OverflowError"
| "py_int NInf = Inl OverflowError"
| "py_int NaN = Inl ValueError"

fun math_ceil :: "double \<Rightarrow> error + int" where
  "math_ceil (Fin r) = Inr \<lceil>r\<rceil>"
| "math_ceil PInf = Inl OverflowError"
| "math_ceil NInf = Inl OverflowError"
| "math_ceil NaN = Inl ValueError"

text \<open>An exception ends the computation; a value is passed on.\<close>

fun bind_result :: "error + 'a \<Rightarrow> ('a \<Rightarrow> error + 'b) \<Rightarrow> error + 'b" where
  "bind_result (Inl e) f = Inl e"
| "bind_result (Inr x) f = f x"

subsection \<open>Other Python primitives\<close>

text \<open>\<^verbatim>\<open>range(n)\<close> is \<open>0, 1, ..., n - 1\<close>, and empty when \<open>n \<le> 0\<close>.\<close>

definition py_range :: "int \<Rightarrow> int list" where
  "py_range n = map int [0..<nat n]"

text \<open>Formatting an integer inside an f-string: decimal digits, a minus sign when negative.\<close>

fun str_nat :: "nat \<Rightarrow> string" where
  "str_nat n =
     (if n < 10 then [char_of (48 + n)]
      else str_nat (n div 10) @ [char_of (48 + n mod 10)])"

declare str_nat.simps [simp del]

definition str_int :: "int \<Rightarrow> string" where
  "str_int i = (if i < 0 then CHR ''-'' # str_nat (nat (- i)) else str_nat (nat i))"

text \<open>The two attributes of \<^verbatim>\<open>pathlib.Path\<close> the planner reads.\<close>

record video_path =
  stem :: string
  path_suffix :: string

subsection \<open>The planner\<close>

text \<open>
  The yielded tuple \<^verbatim>\<open>(start, stop, clip_name)\<close>. The source renders the two offsets
  with \<^verbatim>\<open>str\<close>; the model keeps the floats that are rendered, and \<^verbatim>\<open>None\<close> (through the
  end of the source) is \<open>None\<close>.
\<close>

type_synonym part_info = "double \<times> double option \<times> string"

definition start_of :: "part_info \<Rightarrow> double" where
  "start_of p = fst p"

definition stop_of :: "part_info \<Rightarrow> double option" where
  "stop_of p = fst (snd p)"

definition name_of :: "part_info \<Rightarrow> string" where
  "name_of p = snd (snd p)"

text \<open>\<^verbatim>\<open>part_ratio = video_len / part_len\<close>\<close>

definition part_ratio :: "double \<Rightarrow> double \<Rightarrow> error + double" where
  "part_ratio video_len part_len = fdiv video_len part_len"

text \<open>\<^verbatim>\<open>leftover = math.fabs(part_ratio - int(part_ratio)) * part_len\<close>\<close>

definition leftover :: "double \<Rightarrow> double \<Rightarrow> error + double" where
  "leftover video_len part_len =
     bind_result (part_ratio video_len part_len) (\<lambda>ratio.
     bind_result (py_int ratio) (\<lambda>t.
       Inr (fmul (fabs (fsub ratio (double_of_int t))) part_len)))"

text \<open>\<^verbatim>\<open>parts_total = math.ceil(part_ratio) if leftover >= 1 else int(part_ratio)\<close>\<close>

definition parts_total :: "double \<Rightarrow> double \<Rightarrow> error + int" where
  "parts_total video_len part_len =
     bind_result (leftover video_len part_len) (\<lambda>l.
     bind_result (part_ratio video_len part_len) (\<lambda>ratio.
       if dle (Fin 1) l then math_ceil ratio else py_int ratio))"

text \<open>\<^verbatim>\<open>termination = None if leftover >= 1 else str(parts_total * part_len)\<close>\<close>

definition termination_time :: "double \<Rightarrow> double \<Rightarrow> error + double option" where
  "termination_time video_len part_len =
     bind_result (leftover video_len part_len) (\<lambda>l.
     bind_result (parts_total video_len part_len) (\<lambda>n.
       Inr (if dle (Fin 1) l then None else Some (fmul (double_of_int n) part_len))))"

text \<open>\<^verbatim>\<open>clip_id = f"{suffix}{part+1}_of_{parts_total}"\<close>\<close>

definition clip_id :: "string \<Rightarrow> int \<Rightarrow> int \<Rightarrow> string" where
  "clip_id suffix part ptotal = suffix @ str_int (part + 1) @ ''_of_'' @ str_int ptotal"

text \<open>\<^verbatim>\<open>clip_name = f"{video_path.stem}_{clip_id}{video_path.suffix}"\<close>\<close>

definition clip_name :: "video_path \<Rightarrow> string \<Rightarrow> string" where
  "clip_name vp cid = stem vp @ ''_'' @ cid @ path_suffix vp"

text \<open>
  The body of the loop, for one value of \<open>part\<close>:
  \<^verbatim>\<open>start = str(part_len * part)\<close> and
  \<^verbatim>\<open>stop = str(part_len * (part + 1)) if part + 1 != parts_total else termination\<close>.
\<close>

definition split_part ::
  "video_path \<Rightarrow> double \<Rightarrow> string \<Rightarrow> int \<Rightarrow> double option \<Rightarrow> int \<Rightarrow> part_info" where
  "split_part vp part_len suffix ptotal term part =
     (let start = fmul part_len (double_of_int part);
          stop = (if part + 1 \<noteq> ptotal then Some (fmul part_len (double_of_int (part + 1)))
                  else term)
      in (start, stop, clip_name vp (clip_id suffix part ptotal)))"

text \<open>
  The whole generator: the list of the tuples it yields, or the exception raised when it
  is first advanced.
\<close>

definition gen_split_part_info ::
  "video_path \<Rightarrow> double \<Rightarrow> double \<Rightarrow> string \<Rightarrow> error + part_info list" where
  "gen_split_part_info vp video_len part_len suffix =
     bind_result (parts_total video_len part_len) (\<lambda>n.
     bind_result (termination_time video_len part_len) (\<lambda>term.
       Inr (map (split_part vp part_len suffix n term) (py_range n))))"

subsection \<open>Coverage of the source, in the words of the specification\<close>

text \<open>
  The ranges \<open>[start, end)\<close> of a plan in index order, as the specification reads them:
  a stop offset of \<^verbatim>\<open>None\<close> means the end of the source, and the end of the final
  descriptor, sentinel or pinned, is treated as the duration.
\<close>

definition effective_ranges :: "double \<Rightarrow> part_info list \<Rightarrow> (double \<times> double) list" where
  "effective_ranges duration ds =
     (if ds = [] then []
      else map (\<lambda>p. (start_of p, case stop_of p of None \<Rightarrow> duration | Some t \<Rightarrow> t)) (butlast ds)
           @ [(start_of (last ds), duration)])"

text \<open>Two finite offsets that differ by at most \<open>tol\<close> seconds.\<close>

fun close_to :: "rat \<Rightarrow> double \<Rightarrow> double \<Rightarrow> bool" where
  "close_to tol (Fin x) (Fin y) = (\<bar>x - y\<bar> \<le> tol)"
| "close_to tol _ _ = False"

text \<open>
  Non-empty ranges that run from \<open>a\<close> to \<open>b\<close>, each starting where the previous one
  ended, with no gap or overlap greater than \<open>tol\<close>.
\<close>

fun partitions_within :: "rat \<Rightarrow> double \<Rightarrow> (double \<times> double) list \<Rightarrow> double \<Rightarrow> bool" where
  "partitions_within tol a [] b = close_to tol a b"
| "partitions_within tol a ((s, e) # rs) b =
     (close_to tol s a \<and> dless s e \<and> partitions_within tol e rs b)"

definition plan_covers :: "rat \<Rightarrow> double \<Rightarrow> error + part_info list \<Rightarrow> bool" where
  "plan_covers tol duration r =
     (case r of
        Inl _ \<Rightarrow> False
      | Inr ds \<Rightarrow> partitions_within tol (Fin 0) (effective_ranges duration ds) duration)"

section \<open>Rounding to binary64\<close>

lemma floor_log2_lower:
  assumes "0 < x"
  shows "power_int 2 (floor_log2 x) \<le> x"
proof (cases "1 \<le> x")
  case True
  let ?n = "\<lfloor>x\<rfloor>"
  from True have n: "0 < ?n" by simp
  from bitlen_bounds [OF n] have "2 ^ nat (bitlen ?n - 1) \<le> ?n" by simp
  then have "(of_int (2 ^ nat (bitlen ?n - 1)) :: rat) \<le> of_int ?n"
    by (simp only: of_int_le_iff)
  moreover have "of_int ?n \<le> x" by simp
  moreover have "(of_int (2 ^ nat (bitlen ?n - 1)) :: rat) = 2 ^ nat (bitlen ?n - 1)" by simp
  ultimately have "(2::rat) ^ nat (bitlen ?n - 1) \<le> x" by linarith
  moreover have "0 \<le> bitlen ?n - 1"
    using n bitlen_eq_zero_iff [of ?n] bitlen_nonneg [of ?n] by linarith
  ultimately show ?thesis
    using True by (simp add: floor_log2_def power_int_nonneg_exp)
next
  case False
  let ?m = "\<lceil>1 / x\<rceil> - 1"
  from False assms have y: "1 < 1 / x" by simp
  then have m: "0 < ?m" by (simp add: less_ceiling_iff)
  have b: "0 \<le> bitlen ?m" by (rule bitlen_nonneg)
  from bitlen_bounds [OF m] have "?m < 2 ^ nat (bitlen ?m)" by simp
  then have "?m + 1 \<le> 2 ^ nat (bitlen ?m)" by simp
  then have "(of_int (?m + 1) :: rat) \<le> of_int (2 ^ nat (bitlen ?m))"
    by (simp only: of_int_le_iff)
  moreover have "1 / x \<le> of_int (?m + 1)" by simp
  moreover have "(of_int (2 ^ nat (bitlen ?m)) :: rat) = 2 ^ nat (bitlen ?m)" by simp
  ultimately have "1 / x \<le> 2 ^ nat (bitlen ?m)" by linarith
  then have "1 / 2 ^ nat (bitlen ?m) \<le> x"
    using assms by (simp add: field_simps)
  moreover have "power_int (2::rat) (- bitlen ?m) = 1 / 2 ^ nat (bitlen ?m)"
    using b by (simp add: power_int_minus_divide power_int_nonneg_exp)
  ultimately show ?thesis
    using False by (simp add: floor_log2_def)
qed

lemma floor_log2_upper:
  assumes "0 < x"
  shows "x < power_int 2 (floor_log2 x + 1)"
proof (cases "1 \<le> x")
  case True
  let ?n = "\<lfloor>x\<rfloor>"
  from True have n: "0 < ?n" by simp
  have b: "0 \<le> bitlen ?n" by (rule bitlen_nonneg)
  from bitlen_bounds [OF n] have "?n + 1 \<le> 2 ^ nat (bitlen ?n)" by simp
  then have "(of_int (?n + 1) :: rat) \<le> of_int (2 ^ nat (bitlen ?n))"
    by (simp only: of_int_le_iff)
  moreover have "x < of_int (?n + 1)" by linarith
  moreover have "(of_int (2 ^ nat (bitlen ?n)) :: rat) = 2 ^ nat (bitlen ?n)" by simp
  ultimately have "x < 2 ^ nat (bitlen ?n)" by linarith
  then show ?thesis
    using True b by (simp add: floor_log2_def power_int_nonneg_exp)
next
  case False
  let ?m = "\<lceil>1 / x\<rceil> - 1"
  from False assms have y: "1 < 1 / x" by simp
  then have m: "0 < ?m" by (simp add: less_ceiling_iff)
  then have b: "1 \<le> bitlen ?m"
    using bitlen_eq_zero_iff [of ?m] bitlen_nonneg [of ?m] by linarith
  from bitlen_bounds [OF m] have "2 ^ nat (bitlen ?m - 1) \<le> ?m" by simp
  then have "(of_int (2 ^ nat (bitlen ?m - 1)) :: rat) \<le> of_int ?m"
    by (simp only: of_int_le_iff)
  moreover have "of_int ?m < 1 / x" by linarith
  moreover have "(of_int (2 ^ nat (bitlen ?m - 1)) :: rat) = 2 ^ nat (bitlen ?m - 1)" by simp
  ultimately have "2 ^ nat (bitlen ?m - 1) < 1 / x" by linarith
  then have "x < 1 / 2 ^ nat (bitlen ?m - 1)"
    using assms by (simp add: field_simps)
  moreover have "power_int (2::rat) (- bitlen ?m + 1) = 1 / 2 ^ nat (bitlen ?m - 1)"
  proof -
    have "- bitlen ?m + 1 = - (bitlen ?m - 1)" by simp
    then show ?thesis
      using b by (simp only: power_int_minus_divide) (simp add: power_int_nonneg_exp)
  qed
  ultimately show ?thesis
    using False by (simp add: floor_log2_def)
qed

lemma rhe_cases:
  "round_half_even z = \<lfloor>z\<rfloor> \<or> round_half_even z = \<lfloor>z\<rfloor> + 1"
  by (simp add: round_half_even_def Let_def)

lemma rhe_of_int: "round_half_even (of_int n) = n"
  by (simp add: round_half_even_def Let_def)

lemma rhe_nonneg: "0 \<le> z \<Longrightarrow> 0 \<le> round_half_even z"
  using rhe_cases [of z] by (auto simp: zero_le_floor) 

lemma rhe_le: "z \<le> of_int M \<Longrightarrow> round_half_even z \<le> M"
proof (cases "z = of_int M")
  case True
  then show ?thesis by (simp add: rhe_of_int)
next
  case False
  assume "z \<le> of_int M"
  with False have "z < of_int M" by simp
  then have "\<lfloor>z\<rfloor> < M" by (simp add: floor_less_iff)
  with rhe_cases [of z] show ?thesis by auto
qed

lemma rhe_ge: "of_int M \<le> z \<Longrightarrow> M \<le> round_half_even z"
proof -
  assume "of_int M \<le> z"
  then have "M \<le> \<lfloor>z\<rfloor>" by (simp add: le_floor_iff)
  with rhe_cases [of z] show ?thesis by auto
qed

lemma rhe_err: "\<bar>of_int (round_half_even z) - z\<bar> \<le> 1 / 2"
proof -
  have "of_int \<lfloor>z\<rfloor> \<le> z" "z < of_int \<lfloor>z\<rfloor> + 1" by linarith+
  then show ?thesis
    by (auto simp: round_half_even_def Let_def abs_le_iff)
qed

lemma round_pos_form:
  assumes "round_pos x = Fin r"
  shows "floor_log2 x < 1024 \<and>
         r = of_int (round_half_even (x / power_int 2 (max (floor_log2 x) (- 1022) - 52))) *
             power_int 2 (max (floor_log2 x) (- 1022) - 52)"
  using assms by (auto simp: round_pos_def Let_def split: if_splits)

lemma round_pos_not_NaN [simp]: "round_pos x \<noteq> NaN"
  by (simp add: round_pos_def Let_def)

lemma round_pos_not_NInf [simp]: "round_pos x \<noteq> NInf"
  by (simp add: round_pos_def Let_def)

lemma round_pos_nonneg:
  assumes "0 < x" and "round_pos x = Fin r"
  shows "0 \<le> r"
proof -
  let ?k = "max (floor_log2 x) (- 1022) - 52"
  have "0 \<le> x / power_int 2 ?k" using assms(1) by simp
  then have "0 \<le> round_half_even (x / power_int 2 ?k)" by (rule rhe_nonneg)
  then show ?thesis using round_pos_form [OF assms(2)] by simp
qed

lemma round_pos_err:
  assumes "0 < x" and "round_pos x = Fin r"
  shows "\<bar>r - x\<bar> \<le> power_int 2 (max (floor_log2 x) (- 1022) - 52) / 2"
proof -
  let ?k = "max (floor_log2 x) (- 1022) - 52"
  let ?u = "power_int (2::rat) ?k"
  let ?q = "round_half_even (x / ?u)"
  have u: "0 < ?u" by simp
  have r: "r = of_int ?q * ?u" using round_pos_form [OF assms(2)] by simp
  have "r - x = (of_int ?q - x / ?u) * ?u"
    using u by (simp add: r field_simps)
  then have "\<bar>r - x\<bar> = \<bar>of_int ?q - x / ?u\<bar> * ?u"
    using u by (simp add: abs_mult)
  also have "\<dots> \<le> (1 / 2) * ?u"
    using rhe_err [of "x / ?u"] u by (intro mult_right_mono) simp_all
  finally show ?thesis by simp
qed

lemma round_pos_rel:
  assumes "power_int 2 (- 1022) \<le> x" and "round_pos x = Fin r"
  shows "\<bar>r - x\<bar> \<le> x / 2 ^ 53"
proof -
  have x: "0 < x"
    using assms(1) zero_less_power_int [of "2::rat" "- 1022"] by linarith
  have "- 1022 \<le> floor_log2 x"
  proof (rule ccontr)
    assume "\<not> - 1022 \<le> floor_log2 x"
    then have "floor_log2 x + 1 \<le> - 1022" by simp
    then have "power_int (2::rat) (floor_log2 x + 1) \<le> power_int 2 (- 1022)"
      by (intro power_int_increasing) simp_all
    with floor_log2_upper [OF x] assms(1) show False by linarith
  qed
  then have k: "max (floor_log2 x) (- 1022) - 52 = floor_log2 x - 52" by simp
  have "power_int (2::rat) (floor_log2 x - 52) = power_int 2 (floor_log2 x) / 2 ^ 52"
    by (simp add: power_int_diff)
  also have "\<dots> \<le> x / 2 ^ 52"
    using floor_log2_lower [OF x] by (simp add: divide_right_mono)
  finally have "power_int (2::rat) (floor_log2 x - 52) / 2 \<le> x / 2 ^ 53" by simp
  with round_pos_err [OF x assms(2)] k show ?thesis by simp
qed

lemma round_pos_finite:
  assumes "0 < x" and "x < 2 ^ 1023"
  shows "\<exists>r. round_pos x = Fin r"
proof -
  have "floor_log2 x < 1023"
  proof (rule ccontr)
    assume "\<not> floor_log2 x < 1023"
    then have "power_int (2::rat) 1023 \<le> power_int 2 (floor_log2 x)"
      by (intro power_int_increasing) simp_all
    with floor_log2_lower [OF assms(1)] assms(2) show False by simp
  qed
  then show ?thesis by (simp add: round_pos_def Let_def)
qed

lemma round_pos_overflow:
  assumes "2 ^ 1024 \<le> x"
  shows "round_pos x = PInf"
proof -
  have x: "0 < x" using assms by (rule less_le_trans [rotated]) simp
  have "1024 \<le> floor_log2 x"
  proof (rule ccontr)
    assume "\<not> 1024 \<le> floor_log2 x"
    then have "floor_log2 x + 1 \<le> 1024" by simp
    then have "power_int (2::rat) (floor_log2 x + 1) \<le> power_int 2 1024"
      by (intro power_int_increasing) simp_all
    with floor_log2_upper [OF x] assms show False by simp
  qed
  then show ?thesis by (simp add: round_pos_def Let_def)
qed

lemma round_pos_unit:
  assumes "0 < x" and "x < 1"
  shows "\<exists>r. round_pos x = Fin r \<and> 0 \<le> r \<and> r \<le> 1"
proof -
  let ?e = "floor_log2 x"
  let ?k = "max ?e (- 1022) - 52"
  let ?u = "power_int (2::rat) ?k"
  have e: "?e < 0"
  proof (rule ccontr)
    assume "\<not> ?e < 0"
    then have "power_int (2::rat) 0 \<le> power_int 2 ?e"
      by (intro power_int_increasing) simp_all
    with floor_log2_lower [OF assms(1)] assms(2) show False by simp
  qed
  then have k: "?k \<le> 0" by simp
  have u: "0 < ?u" by simp
  from e obtain r where r: "round_pos x = Fin r"
    by (auto simp: round_pos_def Let_def)
  have inv: "1 / ?u = of_int (2 ^ nat (- ?k))"
  proof -
    have "1 / ?u = power_int 2 (- ?k)" by (rule power_int_minus_divide [symmetric])
    also have "\<dots> = 2 ^ nat (- ?k)" using k by (simp add: power_int_nonneg_exp)
    finally show ?thesis by simp
  qed
  have "x / ?u \<le> 1 / ?u" using assms(2) u by (simp add: divide_right_mono)
  then have "round_half_even (x / ?u) \<le> 2 ^ nat (- ?k)"
    unfolding inv by (rule rhe_le)
  then have "(of_int (round_half_even (x / ?u)) :: rat) \<le> of_int (2 ^ nat (- ?k))"
    by (simp only: of_int_le_iff)
  then have "of_int (round_half_even (x / ?u)) * ?u \<le> (1 / ?u) * ?u"
    unfolding inv [symmetric] using u by (intro mult_right_mono) simp_all
  then have "r \<le> 1" using round_pos_form [OF r] u by simp
  with r round_pos_nonneg [OF assms(1) r] show ?thesis by simp
qed

lemma round_pos_int:
  assumes "1 \<le> n" and "n < 2 ^ 53"
  shows "round_pos (of_int n) = Fin (of_int n)"
proof -
  let ?x = "of_int n :: rat"
  let ?e = "floor_log2 ?x"
  let ?k = "max ?e (- 1022) - 52"
  let ?u = "power_int (2::rat) ?k"
  have x: "0 < ?x" using assms(1) by simp
  have e: "?e < 53"
  proof (rule ccontr)
    assume "\<not> ?e < 53"
    then have "power_int (2::rat) 53 \<le> power_int 2 ?e"
      by (intro power_int_increasing) simp_all
    with floor_log2_lower [OF x] have "(2::rat) ^ 53 \<le> of_int n" by simp
    then have "(of_int (2 ^ 53) :: rat) \<le> of_int n" by simp
    then have "2 ^ 53 \<le> n" by (simp only: of_int_le_iff)
    with assms(2) show False by simp
  qed
  then have k: "?k \<le> 0" by simp
  have u: "0 < ?u" by simp
  have inv: "1 / ?u = of_int (2 ^ nat (- ?k))"
  proof -
    have "1 / ?u = power_int 2 (- ?k)" by (rule power_int_minus_divide [symmetric])
    also have "\<dots> = 2 ^ nat (- ?k)" using k by (simp add: power_int_nonneg_exp)
    finally show ?thesis by simp
  qed
  have "?x / ?u = ?x * (1 / ?u)" by simp
  also have "\<dots> = of_int (n * 2 ^ nat (- ?k))" unfolding inv by simp
  finally have q: "round_half_even (?x / ?u) = n * 2 ^ nat (- ?k)"
    by (simp only: rhe_of_int)
  have "of_int (n * 2 ^ nat (- ?k)) * ?u = ?x * ((1 / ?u) * ?u)"
    unfolding inv by simp
  also have "\<dots> = ?x" using u by simp
  finally have y: "of_int (round_half_even (?x / ?u)) * ?u = ?x"
    unfolding q .
  from e have "\<not> 1024 \<le> ?e" "?e \<noteq> 1023" by simp_all
  then show ?thesis
    unfolding round_pos_def Let_def using y by simp
qed

lemma round_double_zero [simp]: "round_double 0 = Fin 0"
  by (simp add: round_double_def)

lemma round_double_not_NaN [simp]: "round_double x \<noteq> NaN"
  by (cases "round_pos (- x)") (simp_all add: round_double_def)

lemma round_double_nonneg:
  assumes "0 \<le> x" and "round_double x = Fin r"
  shows "0 \<le> r"
proof (cases "x = 0")
  case True
  with assms(2) show ?thesis by simp
next
  case False
  with assms(1) have x: "0 < x" by simp
  with assms(2) have "round_pos x = Fin r" by (simp add: round_double_def)
  with x show ?thesis by (rule round_pos_nonneg)
qed

lemma round_double_nonpos:
  assumes "x \<le> 0" and "round_double x = Fin r"
  shows "r \<le> 0"
proof (cases "x = 0")
  case True
  with assms(2) show ?thesis by simp
next
  case False
  with assms(1) have x: "0 < - x" by simp
  with assms(2) False have d: "dneg (round_pos (- x)) = Fin r"
    by (simp add: round_double_def)
  then obtain y where y: "round_pos (- x) = Fin y" and r: "r = - y"
    by (cases "round_pos (- x)") simp_all
  from round_pos_nonneg [OF x y] r show ?thesis by simp
qed

lemma round_double_unit:
  assumes "0 \<le> x" and "x < 1"
  shows "\<exists>r. round_double x = Fin r \<and> 0 \<le> r \<and> r \<le> 1"
proof (cases "x = 0")
  case True
  then show ?thesis by simp
next
  case False
  with assms(1) have x: "0 < x" by simp
  from round_pos_unit [OF x assms(2)] x show ?thesis
    by (simp add: round_double_def)
qed

lemma round_double_int:
  assumes "\<bar>n\<bar> < 2 ^ 53"
  shows "round_double (of_int n) = Fin (of_int n)"
proof -
  consider "n = 0" | "1 \<le> n" | "1 \<le> - n" by linarith
  then show ?thesis
  proof cases
    case 1
    then show ?thesis by simp
  next
    case 2
    with assms have "n < 2 ^ 53" by simp
    from round_pos_int [OF 2 this] 2 show ?thesis
      by (simp add: round_double_def)
  next
    case 3
    with assms have "- n < 2 ^ 53" by simp
    from round_pos_int [OF 3 this] 3 show ?thesis
      by (simp add: round_double_def)
  qed
qed

lemma double_of_int_0 [simp]: "double_of_int 0 = Fin 0"
  by (simp add: double_of_int_def)

lemma double_of_int_1 [simp]: "double_of_int 1 = Fin 1"
  using round_double_int [of 1] by (simp add: double_of_int_def)

lemma round_double_pos_eq: "0 < x \<Longrightarrow> round_double x = round_pos x"
  by (simp add: round_double_def)

lemma normal_pos:
  assumes "1 / 2 ^ 1022 \<le> x"
  shows "(0::rat) < x"
proof -
  have "(0::rat) < 1 / 2 ^ 1022" by simp
  then show ?thesis using assms by (rule less_le_trans)
qed

lemma round_double_rel:
  assumes "1 / 2 ^ 1022 \<le> x" and "round_double x = Fin r"
  shows "\<bar>r - x\<bar> \<le> x / 2 ^ 53"
proof -
  have x: "0 < x" using assms(1) by (rule normal_pos)
  have "power_int (2::rat) (- 1022) = 1 / 2 ^ 1022"
    by (simp add: power_int_def field_simps)
  with assms(1) have "power_int 2 (- 1022) \<le> x" by simp
  moreover from assms(2) x have "round_pos x = Fin r" by (simp add: round_double_pos_eq)
  ultimately show ?thesis by (rule round_pos_rel)
qed

lemma round_double_abs:
  assumes "0 \<le> x" and "round_double x = Fin r"
  shows "\<bar>r - x\<bar> \<le> x / 2 ^ 53 + 1 / 2 ^ 1075"
proof (cases "1 / 2 ^ 1022 \<le> x")
  case True
  from round_double_rel [OF True assms(2)] show ?thesis by simp
next
  case False
  show ?thesis
  proof (cases "x = 0")
    case True
    with assms(2) show ?thesis by simp
  next
    case nz: False
    with assms(1) have x: "0 < x" by simp
    with assms(2) have r: "round_pos x = Fin r" by (simp add: round_double_pos_eq)
    have p: "power_int (2::rat) (- 1022) = 1 / 2 ^ 1022"
      by (simp add: power_int_def field_simps)
    have "floor_log2 x < - 1022"
    proof (rule ccontr)
      assume "\<not> floor_log2 x < - 1022"
      then have "power_int (2::rat) (- 1022) \<le> power_int 2 (floor_log2 x)"
        by (intro power_int_increasing) simp_all
      with floor_log2_lower [OF x] False p show False by simp
    qed
    then have k: "max (floor_log2 x) (- 1022) - 52 = - 1074" by simp
    have "power_int (2::rat) (- 1074) / 2 = 1 / 2 ^ 1075"
      by (simp add: power_int_def field_simps)
    with round_pos_err [OF x r] k have "\<bar>r - x\<bar> \<le> 1 / 2 ^ 1075" by simp
    moreover have "0 \<le> x / 2 ^ 53" using x by simp
    ultimately show ?thesis by linarith
  qed
qed

lemma round_double_finite:
  assumes "0 \<le> x" and "x < 2 ^ 1023"
  shows "\<exists>r. round_double x = Fin r"
proof (cases "x = 0")
  case True
  then show ?thesis by simp
next
  case False
  with assms(1) have x: "0 < x" by simp
  from round_pos_finite [OF x assms(2)] x show ?thesis by (simp add: round_double_pos_eq)
qed

lemma double_of_int_exact: "\<bar>n\<bar> < 2 ^ 53 \<Longrightarrow> double_of_int n = Fin (of_int n)"
  unfolding double_of_int_def by (rule round_double_int)

text \<open>The product \<open>part_len * i\<close> of a start or stop offset, for a part length in the
  normal range and an index below \<open>2 ^ 53\<close>: finite, with a relative error of at most
  \<open>2 ^ - 53\<close>.\<close>

lemma offset_bounds:
  assumes p: "1 / 2 ^ 1022 \<le> p" and j: "0 \<le> j" "j < 2 ^ 53" and b: "p * of_int j < 2 ^ 1023"
  shows "\<exists>s. fmul (Fin p) (double_of_int j) = Fin s \<and>
           p * of_int j - p * of_int j / 2 ^ 53 \<le> s \<and> s \<le> p * of_int j + p * of_int j / 2 ^ 53"
proof (cases "j = 0")
  case True
  then show ?thesis by simp
next
  case False
  with j have j1: "1 \<le> j" by simp
  have p0: "0 < p" using p by (rule normal_pos)
  from j have dj: "double_of_int j = Fin (of_int j)" by (intro double_of_int_exact) simp
  have "p * 1 \<le> p * of_int j" using p0 j1 by (intro mult_left_mono) simp_all
  then have "p \<le> p * of_int j" by (simp only: mult_1_right)
  with p have n: "1 / 2 ^ 1022 \<le> p * of_int j" by (rule order_trans)
  then have "0 \<le> p * of_int j" using normal_pos [OF n] by simp
  from round_double_finite [OF this b] obtain s where s: "round_double (p * of_int j) = Fin s"
    by blast
  from round_double_rel [OF n s] have "\<bar>s - p * of_int j\<bar> \<le> p * of_int j / 2 ^ 53" .
  then have "p * of_int j - p * of_int j / 2 ^ 53 \<le> s \<and> s \<le> p * of_int j + p * of_int j / 2 ^ 53"
    by linarith
  with s dj show ?thesis by simp
qed

lemma round_double_overflow:
  assumes "2 ^ 1024 \<le> x"
  shows "round_double x = PInf"
proof -
  have "0 < x" using assms by (rule less_le_trans [rotated]) simp
  with round_pos_overflow [OF assms] show ?thesis by (simp add: round_double_def)
qed

lemma round_double_neg_overflow:
  assumes "2 ^ 1024 \<le> x"
  shows "round_double (- x) = NInf"
proof -
  have "0 < x" using assms by (rule less_le_trans [rotated]) simp
  with round_pos_overflow [OF assms] show ?thesis by (simp add: round_double_def)
qed

lemma pow2_50: "(2::rat) ^ 50 = 1125899906842624"
  by simp

lemma pow2_51: "(2::rat) ^ 51 = 2251799813685248"
  by simp

lemma pow2_53: "(2::rat) ^ 53 = 9007199254740992"
  by simp

lemma pow2_64: "(2::rat) ^ 64 = 18446744073709551616"
  by simp

lemma tiny_le: "(1::rat) / 2 ^ 1075 \<le> 1 / 2 ^ 64"
  by simp

section \<open>Basic facts about the planner\<close>

lemma length_py_range: "length (py_range n) = nat n"
  by (simp add: py_range_def)

lemma nth_py_range: "i < nat n \<Longrightarrow> py_range n ! i = int i"
  by (simp add: py_range_def)

lemma py_range_nonpos: "n \<le> 0 \<Longrightarrow> py_range n = []"
  by (simp add: py_range_def)

lemma leftover_fin:
  assumes "part_ratio v p = Inr (Fin r)"
  shows "leftover v p = Inr (fmul (fabs (fsub (Fin r) (double_of_int (trunc_rat r)))) p)"
  using assms by (simp add: leftover_def)

lemma parts_total_fin:
  assumes "part_ratio v p = Inr (Fin r)" and "leftover v p = Inr l"
  shows "parts_total v p = Inr (if dle (Fin 1) l then \<lceil>r\<rceil> else trunc_rat r)"
  using assms by (simp add: parts_total_def)

lemma termination_fin:
  assumes "leftover v p = Inr l" and "parts_total v p = Inr n"
  shows "termination_time v p =
           Inr (if dle (Fin 1) l then None else Some (fmul (double_of_int n) p))"
  using assms by (simp add: termination_time_def)

lemma gen_fin:
  assumes "parts_total v p = Inr n" and "termination_time v p = Inr t"
  shows "gen_split_part_info vp v p sfx = Inr (map (split_part vp p sfx n t) (py_range n))"
  using assms by (simp add: gen_split_part_info_def)

lemma gen_raises:
  "part_ratio v p = Inl e \<Longrightarrow> gen_split_part_info vp v p sfx = Inl e"
  "part_ratio v p = Inr PInf \<Longrightarrow> gen_split_part_info vp v p sfx = Inl OverflowError"
  "part_ratio v p = Inr NInf \<Longrightarrow> gen_split_part_info vp v p sfx = Inl OverflowError"
  "part_ratio v p = Inr NaN \<Longrightarrow> gen_split_part_info vp v p sfx = Inl ValueError"
  by (simp_all add: gen_split_part_info_def parts_total_def leftover_def)

lemma gen_returns:
  assumes "part_ratio v p = Inr (Fin r)"
  shows "\<exists>l n t. leftover v p = Inr l \<and> parts_total v p = Inr n \<and>
           termination_time v p = Inr t \<and>
           gen_split_part_info vp v p sfx = Inr (map (split_part vp p sfx n t) (py_range n))"
proof -
  note l = leftover_fin [OF assms]
  note n = parts_total_fin [OF assms l]
  note t = termination_fin [OF l n]
  from l n t gen_fin [OF n t] show ?thesis by blast
qed

lemma gen_InrD:
  assumes "gen_split_part_info vp v p sfx = Inr ds"
  shows "\<exists>r l n t. part_ratio v p = Inr (Fin r) \<and> leftover v p = Inr l \<and>
           parts_total v p = Inr n \<and> termination_time v p = Inr t \<and>
           ds = map (split_part vp p sfx n t) (py_range n)"
proof (cases "part_ratio v p")
  case (Inl e)
  with gen_raises(1) [OF Inl] assms show ?thesis by simp
next
  case (Inr x)
  show ?thesis
  proof (cases x)
    case (Fin r)
    with Inr have r: "part_ratio v p = Inr (Fin r)" by simp
    from gen_returns [OF r, of vp sfx] assms r show ?thesis by auto
  next
    case PInf
    with Inr gen_raises(2) [of v p vp sfx] assms show ?thesis by simp
  next
    case NInf
    with Inr gen_raises(3) [of v p vp sfx] assms show ?thesis by simp
  next
    case NaN
    with Inr gen_raises(4) [of v p vp sfx] assms show ?thesis by simp
  qed
qed

lemma gen_length:
  assumes "gen_split_part_info vp v p sfx = Inr ds"
  shows "\<exists>n. parts_total v p = Inr n \<and> length ds = nat n"
  using gen_InrD [OF assms] by (auto simp: length_py_range)

lemma gen_total:
  assumes "gen_split_part_info vp v p sfx = Inr ds" and "i < length ds"
  shows "parts_total v p = Inr (int (length ds))"
proof -
  from gen_length [OF assms(1)] obtain n where n: "parts_total v p = Inr n" "length ds = nat n"
    by blast
  with assms(2) have "n = int (length ds)" by linarith
  with n(1) show ?thesis by (simp only:)
qed

lemma gen_nth:
  assumes "gen_split_part_info vp v p sfx = Inr ds" and "i < length ds"
  shows "\<exists>t. termination_time v p = Inr t \<and>
           ds ! i = split_part vp p sfx (int (length ds)) t (int i)"
proof -
  from gen_InrD [OF assms(1)] obtain n t where n: "parts_total v p = Inr n"
    and t: "termination_time v p = Inr t"
    and ds: "ds = map (split_part vp p sfx n t) (py_range n)" by blast
  from gen_total [OF assms] n have nl: "n = int (length ds)" by simp
  from assms(2) have i: "i < nat n" unfolding ds by (simp add: length_py_range)
  then have "map (split_part vp p sfx n t) (py_range n) ! i = split_part vp p sfx n t (int i)"
    by (simp add: length_py_range nth_py_range)
  then have "ds ! i = split_part vp p sfx n t (int i)"
    unfolding ds .
  then have "ds ! i = split_part vp p sfx (int (length ds)) t (int i)"
    by (simp only: nl [symmetric])
  with t show ?thesis by blast
qed

lemma split_part_start:
  "start_of (split_part vp p sfx n t part) = fmul p (double_of_int part)"
  by (simp add: split_part_def start_of_def Let_def)

lemma split_part_stop:
  "stop_of (split_part vp p sfx n t part) =
     (if part + 1 \<noteq> n then Some (fmul p (double_of_int (part + 1))) else t)"
  by (simp add: split_part_def stop_of_def Let_def)

lemma split_part_name:
  "name_of (split_part vp p sfx n t part) = clip_name vp (clip_id sfx part n)"
  by (simp add: split_part_def name_of_def Let_def)

lemma ratio_nonneg:
  assumes "dle (Fin 0) v" and "dless (Fin 0) p" and "part_ratio v p = Inr (Fin r)"
  shows "0 \<le> r"
proof (cases p)
  case (Fin b)
  with assms(2) have b: "0 < b" by simp
  show ?thesis
  proof (cases v)
    case (Fin a)
    with assms(1) have "0 \<le> a / b" using b by simp
    moreover from assms(3) Fin \<open>p = Fin b\<close> b have "round_double (a / b) = Fin r"
      by (simp add: part_ratio_def)
    ultimately show ?thesis by (rule round_double_nonneg)
  qed (use assms Fin b in \<open>simp_all add: part_ratio_def\<close>)
next
  case PInf
  with assms(3) show ?thesis by (cases v) (simp_all add: part_ratio_def)
qed (use assms in simp_all)

lemma ratio_nonpos:
  assumes "dle (Fin 0) v \<and> dless p (Fin 0) \<or> dless v (Fin 0) \<and> dless (Fin 0) p"
    and "part_ratio v p = Inr (Fin r)"
  shows "r \<le> 0"
proof (cases p)
  case (Fin b)
  show ?thesis
  proof (cases v)
    case (Fin a)
    with assms(1) \<open>p = Fin b\<close> have q: "a / b \<le> 0" and b: "b \<noteq> 0"
      by (auto simp: divide_nonneg_neg divide_nonpos_pos divide_neg_pos less_imp_le)
    from assms(2) Fin \<open>p = Fin b\<close> b have "round_double (a / b) = Fin r"
      by (simp add: part_ratio_def)
    with q show ?thesis by (rule round_double_nonpos)
  qed (use assms Fin in \<open>auto simp: part_ratio_def split: if_splits\<close>)
next
  case PInf
  with assms(2) show ?thesis by (cases v) (simp_all add: part_ratio_def)
next
  case NInf
  with assms(2) show ?thesis by (cases v) (simp_all add: part_ratio_def)
next
  case NaN
  with assms(2) show ?thesis by (simp add: part_ratio_def)
qed

lemma nonpos_ratio_empty:
  assumes "part_ratio v p = Inr (Fin r)" and "r \<le> 0"
  shows "gen_split_part_info vp v p sfx = Inr []"
proof -
  from gen_returns [OF assms(1), of vp sfx] obtain l n t
    where l: "leftover v p = Inr l" and n: "parts_total v p = Inr n"
      and g: "gen_split_part_info vp v p sfx = Inr (map (split_part vp p sfx n t) (py_range n))"
    by blast
  from parts_total_fin [OF assms(1) l] n
  have "n = (if dle (Fin 1) l then \<lceil>r\<rceil> else trunc_rat r)" by simp
  moreover have "\<lceil>r\<rceil> \<le> 0" using assms(2) by (simp add: ceiling_le_iff)
  moreover have "trunc_rat r \<le> 0"
    using assms(2) by (auto simp: trunc_rat_def ceiling_le_iff floor_le_iff)
  ultimately have "n \<le> 0" by simp
  with g show ?thesis by (simp add: py_range_nonpos)
qed

lemma single_part_plan:
  assumes "parts_total v (Fin b) = Inr 1" and "termination_time v (Fin b) = Inr t"
  shows "gen_split_part_info vp v (Fin b) sfx = Inr [(Fin 0, t, clip_name vp (clip_id sfx 0 1))]"
proof -
  have "py_range 1 = [0]" by (simp add: py_range_def)
  with gen_fin [OF assms, of vp sfx] show ?thesis
    by (simp add: split_part_def)
qed

text \<open>
  With two parts or more, under the bounds on the magnitudes, the index of the last part is
  below \<open>2 ^ 51\<close> and its start offset, even when rounded up, lies before the end of the
  source.
\<close>

lemma last_start_bound:
  assumes d: "0 < d" "d \<le> 2 ^ 50" and p: "1 / 2 ^ 1022 \<le> p" and dp: "d \<le> 2 ^ 50 * p"
    and n: "parts_total (Fin d) (Fin p) = Inr n" and n2: "2 \<le> n"
  shows "n - 1 < 2 ^ 51 \<and> p * of_int (n - 1) + p * of_int (n - 1) / 2 ^ 53 < d"
proof -
  have p0: "0 < p" using p by (rule normal_pos)
  define x where "x = d / p"
  have xp: "x * p = d" using p0 by (simp add: x_def)
  have x0: "0 \<le> x" using d p0 by (simp add: x_def)
  have x50: "x \<le> 2 ^ 50" using dp p0 by (simp add: x_def pos_divide_le_eq)
  have "(2::rat) ^ 50 < 2 ^ 1023" by simp
  with x50 have "x < 2 ^ 1023" by (rule le_less_trans)
  from round_double_finite [OF x0 this] obtain r where r: "round_double x = Fin r" by blast
  have ratio: "part_ratio (Fin d) (Fin p) = Inr (Fin r)"
    using r p0 by (simp add: part_ratio_def x_def)
  have r0: "0 \<le> r" using x0 r by (rule round_double_nonneg)
  define T where "T = \<lfloor>r\<rfloor>"
  have tr: "trunc_rat r = T" using r0 by (simp add: trunc_rat_def T_def)
  define l where "l = fmul (fabs (fsub (Fin r) (double_of_int T))) (Fin p)"
  have lo: "leftover (Fin d) (Fin p) = Inr l"
    using leftover_fin [OF ratio] by (simp add: tr l_def)
  from parts_total_fin [OF ratio lo] n have n_eq: "n = (if dle (Fin 1) l then \<lceil>r\<rceil> else T)"
    by (simp add: tr)
  have Tr: "of_int T \<le> r" "r < of_int T + 1" unfolding T_def by linarith+
  have cT: "\<lceil>r\<rceil> \<le> T + 1" unfolding T_def by linarith
  have r1: "1 < r"
  proof (rule ccontr)
    assume "\<not> 1 < r"
    then have "r \<le> 1" by simp
    then have "\<lceil>r\<rceil> \<le> 1" "T \<le> 1" unfolding T_def by linarith+
    with n_eq n2 show False by (simp split: if_splits)
  qed
  have x1: "1 \<le> x"
  proof (rule ccontr)
    assume "\<not> 1 \<le> x"
    then have "x < 1" by simp
    from round_double_unit [OF x0 this] r r1 show False by simp
  qed
  have "(1::rat) / 2 ^ 1022 \<le> 1" by simp
  then have xn: "1 / 2 ^ 1022 \<le> x" using x1 by (rule order_trans)
  have rx: "\<bar>r - x\<bar> \<le> x / 2 ^ 53" using xn r by (rule round_double_rel)
  have "\<bar>r - x\<bar> * p \<le> x / 2 ^ 53 * p" using rx p0 by (intro mult_right_mono) simp_all
  moreover have "\<bar>r - x\<bar> * p = \<bar>r * p - d\<bar>"
  proof -
    have "\<bar>r - x\<bar> * p = \<bar>(r - x) * p\<bar>" using p0 by (simp add: abs_mult)
    also have "(r - x) * p = r * p - d" using xp by (simp add: algebra_simps)
    finally show ?thesis .
  qed
  moreover have "x / 2 ^ 53 * p = d / 2 ^ 53" using xp by simp
  ultimately have rp: "\<bar>r * p - d\<bar> \<le> d / 2 ^ 53" by (simp only:)
  have pd: "p \<le> d"
  proof -
    have "1 * p \<le> x * p" using x1 p0 by (intro mult_right_mono) simp_all
    with xp show ?thesis by simp
  qed
  have T1: "1 \<le> T" using r1 unfolding T_def by linarith
  have r51: "r < 2 ^ 51" using rx x50 unfolding pow2_50 pow2_51 pow2_53 by linarith
  have "of_int T < (2 ^ 51 :: rat)" using Tr(1) r51 by (rule le_less_trans)
  then have "(of_int T :: rat) < of_int (2 ^ 51)" by simp
  then have T51: "T < 2 ^ 51" by (simp only: of_int_less_iff)
  define a where "a = p * of_int T"
  have a_le: "a \<le> r * p"
  proof -
    have "of_int T * p \<le> r * p" using Tr(1) p0 by (intro mult_right_mono) simp_all
    then show ?thesis by (simp add: a_def mult.commute)
  qed
  show ?thesis
  proof (cases "dle (Fin 1) l")
    case False
    with n_eq have nT: "n = T" by simp
    define b where "b = p * of_int (n - 1)"
    have b: "b = a - p" by (simp add: b_def a_def nT algebra_simps)
    have "b + b / 2 ^ 53 < d"
      using a_le rp dp p0 b unfolding pow2_50 pow2_53 by linarith
    moreover have "n - 1 < 2 ^ 51" using nT T51 by simp
    ultimately show ?thesis unfolding b_def by simp
  next
    case True
    with n_eq cT have nT: "n - 1 \<le> T" by simp
    from T1 T51 have "\<bar>T\<bar> < 2 ^ 53" by simp
    then have dT: "double_of_int T = Fin (of_int T)" by (rule double_of_int_exact)
    define y where "y = r - of_int T"
    have y01: "0 \<le> y" "y < 1" using Tr by (simp_all add: y_def)
    from round_double_unit [OF y01] obtain f where f: "round_double y = Fin f"
      and f01: "0 \<le> f" "f \<le> 1" by blast
    have l_eq: "l = round_double (f * p)"
      using f f01 by (simp add: l_def dT y_def)
    have fp0: "0 \<le> f * p" using f01 p0 by simp
    have "f * p \<le> 1 * p" using f01 p0 by (intro mult_right_mono) simp_all
    with pd d(2) have fp50: "f * p \<le> 2 ^ 50" by simp
    have "(2::rat) ^ 50 < 2 ^ 1023" by simp
    with fp50 have "f * p < 2 ^ 1023" by (rule le_less_trans)
    from round_double_finite [OF fp0 this] obtain l' where l': "round_double (f * p) = Fin l'"
      by blast
    with True l_eq have l1: "1 \<le> l'" by simp
    from round_double_abs [OF fp0 l'] l1 tiny_le
    have e1: "1 \<le> f * p + f * p / 2 ^ 53 + 1 / 2 ^ 64" unfolding pow2_53 pow2_64 by linarith
    from round_double_abs [OF y01(1) f] tiny_le
    have fy: "f \<le> y + y / 2 ^ 53 + 1 / 2 ^ 64" unfolding pow2_53 pow2_64 by linarith
    have "f * p \<le> (y + y / 2 ^ 53 + 1 / 2 ^ 64) * p"
      using fy p0 by (intro mult_right_mono) simp_all
    also have "\<dots> = y * p + y * p / 2 ^ 53 + p / 2 ^ 64" by (simp add: algebra_simps)
    finally have e2: "f * p \<le> y * p + y * p / 2 ^ 53 + p / 2 ^ 64" .
    have e3: "y * p = r * p - a" by (simp add: y_def a_def algebra_simps)
    have aa: "a + a / 2 ^ 53 < d"
      using e1 e2 e3 rp d(2) pd unfolding pow2_50 pow2_53 pow2_64 by linarith
    define b where "b = p * of_int (n - 1)"
    have "(of_int (n - 1) :: rat) \<le> of_int T" using nT by (simp only: of_int_le_iff)
    then have "p * of_int (n - 1) \<le> p * of_int T" using p0 by (intro mult_left_mono) simp_all
    then have ba: "b \<le> a" by (simp only: a_def b_def)
    have "b + b / 2 ^ 53 < d" using aa ba unfolding pow2_53 by linarith
    moreover have "n - 1 < 2 ^ 51" using nT T51 by simp
    ultimately show ?thesis unfolding b_def by simp
  qed
qed

subsection \<open>Decimal rendering\<close>

lemma str_nat_nonempty: "str_nat n \<noteq> []"
  by (subst str_nat.simps) simp

lemma last_str_nat: "last (str_nat n) = char_of (48 + n mod 10)"
  by (subst str_nat.simps) simp

lemma butlast_str_nat: "butlast (str_nat n) = (if n < 10 then [] else str_nat (n div 10))"
  by (subst str_nat.simps) simp

lemma digit_char_inj:
  assumes "char_of (48 + a mod 10 :: nat) = (char_of (48 + b mod 10 :: nat) :: char)"
  shows "a mod 10 = b mod 10"
proof -
  have "(48 + a mod 10) mod 256 = (48 + b mod 10) mod 256"
    using assms by (simp only: char_of_eq_iff take_bit_eq_mod) simp
  moreover have "48 + a mod 10 < 256" "48 + b mod 10 < 256"
    by (simp_all add: pos_mod_bound less_imp_le trans_less_add2) 
  ultimately show ?thesis by simp
qed

lemma str_nat_inj: "str_nat n = str_nat m \<Longrightarrow> n = m"
proof (induction n arbitrary: m rule: str_nat.induct)
  case (1 n)
  from "1.prems" have "last (str_nat n) = last (str_nat m)" by simp
  then have "char_of (48 + n mod 10) = (char_of (48 + m mod 10) :: char)"
    by (simp only: last_str_nat)
  then have md: "n mod 10 = m mod 10"
    by (rule digit_char_inj)
  from "1.prems" have bl: "butlast (str_nat n) = butlast (str_nat m)" by simp
  show ?case
  proof (cases "n < 10")
    case True
    with bl have "m < 10"
      using str_nat_nonempty [of "m div 10"] by (simp add: butlast_str_nat split: if_splits)
    with True md show ?thesis by simp
  next
    case False
    with bl have m: "\<not> m < 10"
      using str_nat_nonempty [of "n div 10"] by (simp add: butlast_str_nat split: if_splits)
    with False bl have "str_nat (n div 10) = str_nat (m div 10)"
      by (simp add: butlast_str_nat)
    with "1.IH" False have "n div 10 = m div 10" by simp
    with md show ?thesis
      by (metis div_mult_mod_eq)
  qed
qed

lemma str_int_inj_nonneg:
  assumes "0 \<le> i" "0 \<le> j" "str_int i = str_int j"
  shows "i = j"
proof -
  from assms have "str_nat (nat i) = str_nat (nat j)" by (simp add: str_int_def)
  then have "nat i = nat j" by (rule str_nat_inj)
  with assms show ?thesis by simp
qed

lemma upto_from_1: "[1..int n] = map (\<lambda>i. int i + 1) [0..<n]"
proof (induction n)
  case 0
  show ?case by simp
next
  case (Suc n)
  have "[1..int (Suc n)] = [1..int n + 1]" by (simp add: add.commute)
  also have "\<dots> = [1..int n] @ [int n + 1]" using upto_rec2 [of 1 "int n + 1"] by simp
  finally show ?case using Suc by simp
qed

subsection \<open>Chains of ranges\<close>

lemma close_to_mono: "close_to 0 a b \<Longrightarrow> 0 \<le> tol \<Longrightarrow> close_to tol a b"
  by (cases a; cases b) simp_all

lemma partitions_within_mono:
  "partitions_within 0 a rs b \<Longrightarrow> 0 \<le> tol \<Longrightarrow> partitions_within tol a rs b"
  by (induction rs arbitrary: a) (auto intro: close_to_mono)

lemma effective_ranges_plan:
  assumes n: "1 \<le> n"
  shows "effective_ranges duration (map (split_part vp p sfx n t) (py_range n)) =
         map (\<lambda>i. (fmul p (double_of_int (int i)), fmul p (double_of_int (int (i + 1)))))
             [0..<nat n - 1] @
         [(fmul p (double_of_int (int (nat n - 1))), duration)]"
proof -
  let ?f = "split_part vp p sfx n t"
  from n obtain m where sm: "nat n = Suc m"
    by (cases "nat n") simp_all
  then have m: "nat n - 1 = m" by simp
  from sm n have nm: "n = int m + 1" by linarith
  have ds: "map ?f (py_range n) = map (\<lambda>i. ?f (int i)) [0..<m] @ [?f (int m)]"
    by (simp add: py_range_def sm)
  have mid: "(start_of (?f (int i)), case stop_of (?f (int i)) of None \<Rightarrow> duration | Some t \<Rightarrow> t) =
             (fmul p (double_of_int (int i)), fmul p (double_of_int (int (i + 1))))" if "i < m" for i
  proof -
    from that nm have "int i + 1 \<noteq> n" by linarith
    moreover have "int (i + 1) = int i + 1" by simp
    ultimately show ?thesis by (simp only: split_part_start split_part_stop) simp
  qed
  have "effective_ranges duration (map ?f (py_range n)) =
        map (\<lambda>p. (start_of p, case stop_of p of None \<Rightarrow> duration | Some t \<Rightarrow> t))
            (map (\<lambda>i. ?f (int i)) [0..<m]) @ [(start_of (?f (int m)), duration)]"
    unfolding ds effective_ranges_def by simp
  also have "\<dots> = map (\<lambda>i. (fmul p (double_of_int (int i)), fmul p (double_of_int (int (i + 1)))))
                       [0..<m] @ [(fmul p (double_of_int (int m)), duration)]"
    using mid by (simp add: split_part_start del: fmul.simps)
  finally show ?thesis unfolding m .
qed

lemma partitions_chain:
  assumes p: "1 / 2 ^ 1022 \<le> p" and d: "0 < d" "d \<le> 2 ^ 50"
    and m: "int m < 2 ^ 51" and last: "p * of_int (int m) + p * of_int (int m) / 2 ^ 53 < d"
  shows "k \<le> m \<Longrightarrow>
    partitions_within 0 (fmul (Fin p) (double_of_int (int k)))
      (map (\<lambda>i. (fmul (Fin p) (double_of_int (int i)), fmul (Fin p) (double_of_int (int (i + 1)))))
           [k..<m] @
       [(fmul (Fin p) (double_of_int (int m)), Fin d)]) (Fin d)"
proof (induction "m - k" arbitrary: k)
  case 0
  then have km: "k = m" by simp
  have p0: "0 < p" using p by (rule normal_pos)
  have pm0: "0 \<le> p * of_int (int m)" using p0 by simp
  then have "0 \<le> p * of_int (int m) / 2 ^ 53" by simp
  with last have lt: "p * of_int (int m) < d" by linarith
  have "d < 2 ^ 1023" using d(2) by (rule le_less_trans) simp
  with lt have b: "p * of_int (int m) < 2 ^ 1023" by (rule less_trans)
  have j: "0 \<le> int m" "int m < 2 ^ 53" using m by simp_all
  from offset_bounds [OF p j b] obtain s
    where s: "fmul (Fin p) (double_of_int (int m)) = Fin s"
      and su: "s \<le> p * of_int (int m) + p * of_int (int m) / 2 ^ 53" by blast
  from su last have "s < d" by linarith
  with s km show ?case by (simp del: fmul.simps)
next
  case (Suc n)
  then have km: "k < m" by simp
  then have u: "[k..<m] = k # [Suc k..<m]" by (rule upt_conv_Cons)
  have "n = m - Suc k" using Suc.hyps(2) by simp
  from Suc.hyps(1) [OF this] km
  have rest: "partitions_within 0 (fmul (Fin p) (double_of_int (int (Suc k))))
      (map (\<lambda>i. (fmul (Fin p) (double_of_int (int i)), fmul (Fin p) (double_of_int (int (i + 1)))))
           [Suc k..<m] @
       [(fmul (Fin p) (double_of_int (int m)), Fin d)]) (Fin d)"
    by simp
  have p0: "0 < p" using p by (rule normal_pos)
  have pm0: "0 \<le> p * of_int (int m)" using p0 by simp
  then have "0 \<le> p * of_int (int m) / 2 ^ 53" by simp
  with last have lt: "p * of_int (int m) < d" by linarith
  have "d < 2 ^ 1023" using d(2) by (rule le_less_trans) simp
  with lt have bm: "p * of_int (int m) < 2 ^ 1023" by (rule less_trans)
  define a where "a = p * of_int (int k)"
  have a0: "0 \<le> a" using p0 by (simp add: a_def)
  have a1: "p * of_int (int (Suc k)) = a + p" by (simp add: a_def algebra_simps)
  have "(of_int (int (Suc k)) :: rat) \<le> of_int (int m)" using km by simp
  then have "p * of_int (int (Suc k)) \<le> p * of_int (int m)"
    using p0 by (intro mult_left_mono) simp_all
  with a1 have apm: "a + p \<le> p * of_int (int m)" by simp
  with bm have b1: "p * of_int (int (Suc k)) < 2 ^ 1023" using a1 by simp
  from apm p0 bm have b0: "p * of_int (int k) < 2 ^ 1023" unfolding a_def by linarith
  have jk: "0 \<le> int k" "int k < 2 ^ 53" using km m by simp_all
  have js: "0 \<le> int (Suc k)" "int (Suc k) < 2 ^ 53" using km m by simp_all
  from offset_bounds [OF p jk b0] obtain s
    where s: "fmul (Fin p) (double_of_int (int k)) = Fin s"
      and su: "s \<le> a + a / 2 ^ 53" unfolding a_def by blast
  from offset_bounds [OF p js b1] obtain s'
    where s': "fmul (Fin p) (double_of_int (int (Suc k))) = Fin s'"
      and sl: "(a + p) - (a + p) / 2 ^ 53 \<le> s'" unfolding a1 by blast
  have "(of_int (int k) :: rat) \<le> 2 ^ 51"
  proof -
    have "int k \<le> 2 ^ 51" using km m by simp
    then have "(of_int (int k) :: rat) \<le> of_int (2 ^ 51)" by (simp only: of_int_le_iff)
    then show ?thesis by simp
  qed
  then have "p * of_int (int k) \<le> p * 2 ^ 51" using p0 by (intro mult_left_mono) simp_all
  then have ak: "a \<le> p * 2 ^ 51" by (simp only: a_def)
  have sd: "(a + p) / 2 ^ 53 = a / 2 ^ 53 + p / 2 ^ 53" by (rule add_divide_distrib)
  from sl have sl': "(a + p) - (a / 2 ^ 53 + p / 2 ^ 53) \<le> s'" unfolding sd .
  have "s < s'" using su sl' ak p0 a0 unfolding pow2_51 pow2_53 by linarith
  with s s' rest show ?case
    unfolding u by (simp del: fmul.simps)
qed

subsection \<open>Plans evaluated\<close>

lemma ratio_25_10: "part_ratio (Fin 25) (Fin 10) = Inr (Fin (5 / 2))"
  by code_simp


lemma plan_25_10:
  "gen_split_part_info \<lparr>stem = ''clip'', path_suffix = ''.mp4''\<rparr> (Fin 25) (Fin 10) ''_part_'' =
     Inr [(Fin 0, Some (Fin 10), ''clip__part_1_of_3.mp4''),
          (Fin 10, Some (Fin 20), ''clip__part_2_of_3.mp4''),
          (Fin 20, None, ''clip__part_3_of_3.mp4'')]"
  by code_simp

text \<open>
  \<^verbatim>\<open>4.0 / 3.0\<close> is rounded down, and the leftover \<^verbatim>\<open>0.9999999999999998\<close> is below one
  second: one part, pinned to 3 seconds.
\<close>

lemma ratio_4_3: "part_ratio (Fin 4) (Fin 3) = Inr (Fin (6004799503160661 / 4503599627370496))"
  by code_simp



lemma ratio_5_10: "part_ratio (Fin 5) (Fin 10) = Inr (Fin (1 / 2))"
  by code_simp

lemma leftover_5_10: "leftover (Fin 5) (Fin 10) = Inr (Fin 5)"
  by code_simp

text \<open>
  \<^verbatim>\<open>1.0 / 49.0\<close> is rounded down, and the leftover \<^verbatim>\<open>0.9999999999999999\<close> is below one
  second.
\<close>

lemma ratio_1_49:
  "part_ratio (Fin 1) (Fin 49) = Inr (Fin (5882252574524729 / 288230376151711744))"
  by code_simp

lemma leftover_1_49:
  "leftover (Fin 1) (Fin 49) = Inr (Fin (9007199254740991 / 9007199254740992))"
  by code_simp

lemma plan_half_8:
  "gen_split_part_info \<lparr>stem = ''clip'', path_suffix = ''.mp4''\<rparr> (Fin (1 / 2)) (Fin 8) ''_part_'' =
     Inr []"
  by code_simp

lemma ratio_30_neg10: "part_ratio (Fin 30) (Fin (- 10)) = Inr (Fin (- 3))"
  by code_simp

lemma ratio_neg20_10: "part_ratio (Fin (- 20)) (Fin 10) = Inr (Fin (- 2))"
  by code_simp

text \<open>
  A part length of \<^verbatim>\<open>1e-320\<close>, a subnormal float, and its negation: the quotient of a
  duration of a second or more is infinite.
\<close>

lemma tiny_part_len_overflow:
  assumes "1 \<le> v"
  shows "part_ratio (Fin v) (Fin (253 / 2 ^ 1071)) = Inr PInf"
    and "part_ratio (Fin v) (Fin (- (253 / 2 ^ 1071))) = Inr NInf"
proof -
  let ?c = "253 / 2 ^ 1071 :: rat"
  have c: "0 < ?c" by simp
  have "(2::rat) ^ 1024 \<le> 1 / ?c" by simp
  also have "\<dots> \<le> v / ?c" using assms c by (intro divide_right_mono) simp_all
  finally have b: "2 ^ 1024 \<le> v / ?c" .
  have p: "round_double (v / ?c) = PInf" using b by (rule round_double_overflow)
  have n: "round_double (- (v / ?c)) = NInf" using b by (rule round_double_neg_overflow)
  have f: "fdiv (Fin v) (Fin ?c) = Inr (round_double (v / ?c))"
    using c by (simp del: times_divide_eq_right divide_divide_eq_right)
  have "v / (- ?c) = - (v / ?c)" by (rule divide_minus_right)
  moreover have "- ?c \<noteq> 0" using c by simp
  ultimately have g: "fdiv (Fin v) (Fin (- ?c)) = Inr (round_double (- (v / ?c)))"
    by (simp only: fdiv.simps if_False double.case)
  show "part_ratio (Fin v) (Fin ?c) = Inr PInf"
    unfolding part_ratio_def f p ..
  show "part_ratio (Fin v) (Fin (- ?c)) = Inr NInf"
    unfolding part_ratio_def g n ..
qed

text \<open>
  A part length of \<^verbatim>\<open>0.1\<close> and a duration of half a second: the third part runs from
  \<^verbatim>\<open>0.2\<close> to \<^verbatim>\<open>0.30000000000000004\<close>.
\<close>

lemma plan_half_tenth:
  "gen_split_part_info \<lparr>stem = ''clip'', path_suffix = ''.mp4''\<rparr> (Fin (1 / 2))
       (Fin (3602879701896397 / 36028797018963968)) ''_part_'' =
     Inr [(Fin 0, Some (Fin (3602879701896397 / 36028797018963968)), ''clip__part_1_of_5.mp4''),
          (Fin (3602879701896397 / 36028797018963968),
           Some (Fin (3602879701896397 / 18014398509481984)), ''clip__part_2_of_5.mp4''),
          (Fin (3602879701896397 / 18014398509481984),
           Some (Fin (1351079888211149 / 4503599627370496)), ''clip__part_3_of_5.mp4''),
          (Fin (1351079888211149 / 4503599627370496),
           Some (Fin (3602879701896397 / 9007199254740992)), ''clip__part_4_of_5.mp4''),
          (Fin (3602879701896397 / 9007199254740992), Some (Fin (1 / 2)),
           ''clip__part_5_of_5.mp4'')]"
  by code_simp

text \<open>
  Beyond \<open>2 ^ 53\<close> two consecutive indices can give the same offset, so that a part is
  empty; hence the bounds on the magnitudes in the coverage theorem below.
\<close>

lemma large_index_collapse:
  "fmul (Fin 1) (double_of_int (2 ^ 53 + 1)) = fmul (Fin 1) (double_of_int (2 ^ 53))"
  by code_simp

section \<open>The claims\<close>

text \<open>
  C1, as the code has it. For a duration \<open>> 0\<close> and a part length \<open>> 0\<close> of ordinary
  magnitude (a part length of at least \<open>2 ^ - 1022\<close>, the smallest normal float, a duration
  of at most \<open>2 ^ 50\<close> seconds and at most \<open>2 ^ 50\<close> part lengths) for which the planner
  returns a plan that is not empty, the ranges of the descriptors in index order, with the
  end of the final descriptor treated as the duration, partition \<open>[0, duration)\<close>: the
  first range starts at 0, each range is non-empty and starts exactly where the previous
  one ended, and the last one ends at the duration, so that no gap or overlap exceeds any
  tolerance \<open>tol \<ge> 0\<close>. The claim as written (every duration \<open>> 0\<close>) fails for a
  duration of half a second and a part length of 8: the plan is empty and covers nothing.
\<close>

theorem plan_partitions_source:
  assumes "0 < duration" and "duration \<le> 2 ^ 50" and "1 / 2 ^ 1022 \<le> part_len"
    and "duration \<le> 2 ^ 50 * part_len" and "0 \<le> tol"
    and "gen_split_part_info vp (Fin duration) (Fin part_len) suffix = Inr ds" and "ds \<noteq> []"
  shows "plan_covers tol (Fin duration)
           (gen_split_part_info vp (Fin duration) (Fin part_len) suffix)"
proof -
  from gen_InrD [OF assms(6)] obtain n t
    where n: "parts_total (Fin duration) (Fin part_len) = Inr n"
      and ds: "ds = map (split_part vp (Fin part_len) suffix n t) (py_range n)" by blast
  from assms(7) have n1: "1 \<le> n"
    unfolding ds by (cases "n \<le> 0") (simp_all add: py_range_nonpos)
  define m where "m = nat n - 1"
  have nm: "n - 1 = int m" using n1 by (simp add: m_def)
  have b: "int m < 2 ^ 51 \<and>
           part_len * of_int (int m) + part_len * of_int (int m) / 2 ^ 53 < duration"
  proof (cases "2 \<le> n")
    case True
    from last_start_bound [OF assms(1,2,3,4) n True] show ?thesis unfolding nm .
  next
    case False
    with n1 nm have "m = 0" by simp
    with assms(1) show ?thesis by simp
  qed
  then have b1: "int m < 2 ^ 51"
    and b2: "part_len * of_int (int m) + part_len * of_int (int m) / 2 ^ 53 < duration"
    by simp_all
  have "partitions_within 0 (fmul (Fin part_len) (double_of_int (int 0)))
          (effective_ranges (Fin duration) ds) (Fin duration)"
    unfolding ds effective_ranges_plan [OF n1] m_def [symmetric]
    by (rule partitions_chain [OF assms(3) assms(1,2) b1 b2]) simp
  then have "partitions_within 0 (Fin 0) (effective_ranges (Fin duration) ds) (Fin duration)"
    by simp
  from partitions_within_mono [OF this assms(5)] show ?thesis
    by (simp add: plan_covers_def assms(6))
qed

theorem plan_partitions_source_witness:
  "(0::rat) < 25 \<and> (25::rat) \<le> 2 ^ 50 \<and> (1::rat) / 2 ^ 1022 \<le> 10 \<and> (25::rat) \<le> 2 ^ 50 * 10 \<and>
   (0::rat) \<le> 1 / 10 ^ 6 \<and>
   gen_split_part_info \<lparr>stem = ''clip'', path_suffix = ''.mp4''\<rparr> (Fin 25) (Fin 10) ''_part_'' =
     Inr [(Fin 0, Some (Fin 10), ''clip__part_1_of_3.mp4''),
          (Fin 10, Some (Fin 20), ''clip__part_2_of_3.mp4''),
          (Fin 20, None, ''clip__part_3_of_3.mp4'')] \<and>
   plan_covers (1 / 10 ^ 6) (Fin 25)
     (gen_split_part_info \<lparr>stem = ''clip'', path_suffix = ''.mp4''\<rparr> (Fin 25) (Fin 10) ''_part_'')"
proof -
  have h1: "(0::rat) < 25" and h2: "(25::rat) \<le> 2 ^ 50" and h3: "(1::rat) / 2 ^ 1022 \<le> 10"
    and h4: "(25::rat) \<le> 2 ^ 50 * 10" and h5: "(0::rat) \<le> 1 / 10 ^ 6" by simp_all
  have h7: "[(Fin 0, Some (Fin 10), ''clip__part_1_of_3.mp4''),
             (Fin 10, Some (Fin 20), ''clip__part_2_of_3.mp4''),
             (Fin 20, None, ''clip__part_3_of_3.mp4'')] \<noteq> []" by simp
  from plan_partitions_source [OF h1 h2 h3 h4 h5 plan_25_10 h7] plan_25_10
  show ?thesis by simp
qed

theorem plan_partitions_source_counterexample:
  "\<not> plan_covers (1 / 10 ^ 6) (Fin (1 / 2))
       (gen_split_part_info \<lparr>stem = ''clip'', path_suffix = ''.mp4''\<rparr> (Fin (1 / 2)) (Fin 8) ''_part_'')"
  using plan_half_8 by (simp add: plan_covers_def effective_ranges_def)

text \<open>
  C2, as the code has it. For a duration \<open>\<ge> 0\<close> and a part length \<open>> 0\<close> whose float
  quotient \<open>ratio = duration / partLength\<close> is finite, with
  \<open>leftover = |ratio - floor ratio| * partLength\<close> computed in float arithmetic, the
  planner yields exactly \<open>ceil ratio\<close> descriptors when the leftover is at least one
  second and exactly \<open>floor ratio\<close> descriptors otherwise. The claim as written (every
  part length \<open>> 0\<close>) fails for a duration of 10 and a part length of \<^verbatim>\<open>1e-320\<close>: the
  quotient is infinite, \<^verbatim>\<open>int\<close> raises \<^verbatim>\<open>OverflowError\<close> and no descriptor is produced.
\<close>

theorem descriptor_count:
  assumes "dle (Fin 0) duration" and "dless (Fin 0) partLength"
    and "part_ratio duration partLength = Inr (Fin ratio)"
  shows "\<exists>ds. gen_split_part_info vp duration partLength suffix = Inr ds \<and>
    int (length ds) =
      (let leftover = fmul (fabs (fsub (Fin ratio) (double_of_int \<lfloor>ratio\<rfloor>))) partLength
       in if dle (Fin 1) leftover then \<lceil>ratio\<rceil> else \<lfloor>ratio\<rfloor>)"
proof -
  have r: "0 \<le> ratio" using assms by (rule ratio_nonneg)
  then have tr: "trunc_rat ratio = \<lfloor>ratio\<rfloor>" by (simp add: trunc_rat_def)
  let ?l = "fmul (fabs (fsub (Fin ratio) (double_of_int \<lfloor>ratio\<rfloor>))) partLength"
  let ?n = "if dle (Fin 1) ?l then \<lceil>ratio\<rceil> else \<lfloor>ratio\<rfloor>"
  have l: "leftover duration partLength = Inr ?l"
    using leftover_fin [OF assms(3)] tr by simp
  have n: "parts_total duration partLength = Inr ?n"
    using parts_total_fin [OF assms(3) l] tr by simp
  note t = termination_fin [OF l n]
  note g = gen_fin [OF n t, of vp suffix]
  have "0 \<le> \<lfloor>ratio\<rfloor>" "0 \<le> \<lceil>ratio\<rceil>"
    using r by (simp_all add: le_floor_iff le_ceiling_iff)
  then have "0 \<le> ?n" by simp
  then have "int (length (map (split_part vp partLength suffix ?n
      (if dle (Fin 1) ?l then None else Some (fmul (double_of_int ?n) partLength)))
      (py_range ?n))) = ?n"
    by (simp add: length_py_range)
  with g show ?thesis by (simp add: Let_def)
qed

theorem descriptor_count_witness:
  "dle (Fin 0) (Fin 25) \<and> dless (Fin 0) (Fin 10) \<and>
   part_ratio (Fin 25) (Fin 10) = Inr (Fin (5 / 2)) \<and>
   (\<exists>ds. gen_split_part_info \<lparr>stem = ''clip'', path_suffix = ''.mp4''\<rparr> (Fin 25) (Fin 10) ''_part_'' =
           Inr ds \<and> int (length ds) = 3) \<and>
   dle (Fin 0) (Fin 4) \<and> dless (Fin 0) (Fin 3) \<and>
   part_ratio (Fin 4) (Fin 3) = Inr (Fin (6004799503160661 / 4503599627370496)) \<and>
   (\<exists>ds. gen_split_part_info \<lparr>stem = ''clip'', path_suffix = ''.mp4''\<rparr> (Fin 4) (Fin 3) ''_part_'' =
           Inr ds \<and> int (length ds) = 1)"
proof -
  have h1: "dle (Fin 0) (Fin 25)" and h2: "dless (Fin 0) (Fin 10)"
    and h3: "dle (Fin 0) (Fin 4)" and h4: "dless (Fin 0) (Fin 3)" by simp_all
  have l1: "fmul (fabs (fsub (Fin (5 / 2)) (double_of_int 2))) (Fin 10) = Fin 5"
    by code_simp
  have l2: "fmul (fabs (fsub (Fin (6004799503160661 / 4503599627370496)) (double_of_int 1))) (Fin 3) =
            Fin (4503599627370495 / 4503599627370496)"
    by code_simp
  have f1: "\<lfloor>5 / 2 :: rat\<rfloor> = 2" "\<lceil>5 / 2 :: rat\<rceil> = 3"
    by code_simp+
  have f2: "\<lfloor>6004799503160661 / 4503599627370496 :: rat\<rfloor> = 1"
    by code_simp
  from descriptor_count [OF h1 h2 ratio_25_10,
      of "\<lparr>stem = ''clip'', path_suffix = ''.mp4''\<rparr>" "''_part_''"]
  have a: "\<exists>ds. gen_split_part_info \<lparr>stem = ''clip'', path_suffix = ''.mp4''\<rparr> (Fin 25) (Fin 10) ''_part_'' =
           Inr ds \<and> int (length ds) = 3"
    unfolding Let_def f1 l1 by simp
  from descriptor_count [OF h3 h4 ratio_4_3,
      of "\<lparr>stem = ''clip'', path_suffix = ''.mp4''\<rparr>" "''_part_''"]
  have b: "\<exists>ds. gen_split_part_info \<lparr>stem = ''clip'', path_suffix = ''.mp4''\<rparr> (Fin 4) (Fin 3) ''_part_'' =
           Inr ds \<and> int (length ds) = 1"
    unfolding Let_def f2 l2 by simp
  from h1 h2 h3 h4 ratio_25_10 ratio_4_3 a b show ?thesis by (simp only: simp_thms)
qed

theorem descriptor_count_counterexample:
  "dle (Fin 0) (Fin 10) \<and> dless (Fin 0) (Fin (253 / 2 ^ 1071)) \<and>
   gen_split_part_info \<lparr>stem = ''clip'', path_suffix = ''.mp4''\<rparr> (Fin 10) (Fin (253 / 2 ^ 1071))
     ''_part_'' = Inl OverflowError"
proof -
  have "(1::rat) \<le> 10" by simp
  from gen_raises(2) [OF tiny_part_len_overflow(1) [OF this]]
  show ?thesis by simp
qed




text \<open>
  C4, as the code has it. A part length of zero makes the division raise
  \<^verbatim>\<open>ZeroDivisionError\<close>, and no plan is produced. A negative part length is not
  rejected: when the float quotient \<open>video_len / part_len\<close> is finite the planner raises
  nothing and returns a finite plan, which is empty whenever the duration is not negative;
  when the quotient is infinite \<^verbatim>\<open>int\<close> raises \<^verbatim>\<open>OverflowError\<close>, and when it is a NaN
  \<^verbatim>\<open>int\<close> raises \<^verbatim>\<open>ValueError\<close>. The claim as written (every part length \<open>\<le> 0\<close> is
  reported as an error) fails for a duration of 25 and a part length of \<open>- 10\<close>.
\<close>

theorem nonpositive_part_len:
  "(part_len = Fin 0 \<longrightarrow>
      gen_split_part_info vp video_len part_len suffix = Inl ZeroDivisionError) \<and>
   (dless part_len (Fin 0) \<longrightarrow>
      (\<exists>ratio. part_ratio video_len part_len = Inr ratio \<and>
         (case ratio of
            Fin r \<Rightarrow>
              (\<exists>ds. gen_split_part_info vp video_len part_len suffix = Inr ds) \<and>
              (dle (Fin 0) video_len \<longrightarrow>
                 gen_split_part_info vp video_len part_len suffix = Inr [])
          | PInf \<Rightarrow> gen_split_part_info vp video_len part_len suffix = Inl OverflowError
          | NInf \<Rightarrow> gen_split_part_info vp video_len part_len suffix = Inl OverflowError
          | NaN \<Rightarrow> gen_split_part_info vp video_len part_len suffix = Inl ValueError)))"
proof (intro conjI impI)
  assume "part_len = Fin 0"
  then have "part_ratio video_len part_len = Inl ZeroDivisionError"
    by (simp add: part_ratio_def)
  then show "gen_split_part_info vp video_len part_len suffix = Inl ZeroDivisionError"
    by (rule gen_raises(1))
next
  assume neg: "dless part_len (Fin 0)"
  then obtain ratio where ratio: "part_ratio video_len part_len = Inr ratio"
    by (cases part_len) (auto simp: part_ratio_def)
  have "case ratio of
            Fin r \<Rightarrow>
              (\<exists>ds. gen_split_part_info vp video_len part_len suffix = Inr ds) \<and>
              (dle (Fin 0) video_len \<longrightarrow>
                 gen_split_part_info vp video_len part_len suffix = Inr [])
          | PInf \<Rightarrow> gen_split_part_info vp video_len part_len suffix = Inl OverflowError
          | NInf \<Rightarrow> gen_split_part_info vp video_len part_len suffix = Inl OverflowError
          | NaN \<Rightarrow> gen_split_part_info vp video_len part_len suffix = Inl ValueError"
  proof (cases ratio)
    case (Fin r)
    with ratio have r: "part_ratio video_len part_len = Inr (Fin r)" by simp
    from gen_returns [OF r, of vp suffix]
    have "\<exists>ds. gen_split_part_info vp video_len part_len suffix = Inr ds" by blast
    moreover have "gen_split_part_info vp video_len part_len suffix = Inr []"
      if "dle (Fin 0) video_len"
      using r ratio_nonpos [OF _ r] that neg by (intro nonpos_ratio_empty [of _ _ r]) simp_all
    ultimately show ?thesis using Fin by simp
  qed (use ratio gen_raises(2-4) [of video_len part_len vp suffix] in simp_all)
  with ratio show "\<exists>ratio. part_ratio video_len part_len = Inr ratio \<and>
         (case ratio of
            Fin r \<Rightarrow>
              (\<exists>ds. gen_split_part_info vp video_len part_len suffix = Inr ds) \<and>
              (dle (Fin 0) video_len \<longrightarrow>
                 gen_split_part_info vp video_len part_len suffix = Inr [])
          | PInf \<Rightarrow> gen_split_part_info vp video_len part_len suffix = Inl OverflowError
          | NInf \<Rightarrow> gen_split_part_info vp video_len part_len suffix = Inl OverflowError
          | NaN \<Rightarrow> gen_split_part_info vp video_len part_len suffix = Inl ValueError)"
    by blast
qed

theorem nonpositive_part_len_witness:
  "gen_split_part_info \<lparr>stem = ''clip'', path_suffix = ''.mp4''\<rparr> (Fin 25) (Fin 0) ''_part_'' =
     Inl ZeroDivisionError \<and>
   dless (Fin (- 10)) (Fin 0) \<and> dle (Fin 0) (Fin 30) \<and>
   gen_split_part_info \<lparr>stem = ''clip'', path_suffix = ''.mp4''\<rparr> (Fin 30) (Fin (- 10)) ''_part_'' =
     Inr [] \<and>
   dless (Fin (- (253 / 2 ^ 1071))) (Fin 0) \<and>
   gen_split_part_info \<lparr>stem = ''clip'', path_suffix = ''.mp4''\<rparr> (Fin 30)
     (Fin (- (253 / 2 ^ 1071))) ''_part_'' = Inl OverflowError \<and>
   gen_split_part_info \<lparr>stem = ''clip'', path_suffix = ''.mp4''\<rparr> NaN (Fin (- 10)) ''_part_'' =
     Inl ValueError"
proof -
  have o: "part_ratio (Fin 30) (Fin (- (253 / 2 ^ 1071))) = Inr NInf"
    by (rule tiny_part_len_overflow(2)) simp
  have n: "part_ratio NaN (Fin (- 10)) = Inr NaN" by (simp add: part_ratio_def)
  have d: "dless (Fin (- (253 / 2 ^ 1071))) (Fin 0)" by simp
  from nonpositive_part_len [where part_len = "Fin 0" and video_len = "Fin 25"
      and vp = "\<lparr>stem = ''clip'', path_suffix = ''.mp4''\<rparr>" and suffix = "''_part_''"]
  have a: "gen_split_part_info \<lparr>stem = ''clip'', path_suffix = ''.mp4''\<rparr> (Fin 25) (Fin 0) ''_part_'' =
     Inl ZeroDivisionError" by simp
  from nonpositive_part_len [where part_len = "Fin (- 10)" and video_len = "Fin 30"
      and vp = "\<lparr>stem = ''clip'', path_suffix = ''.mp4''\<rparr>" and suffix = "''_part_''"]
  have b: "gen_split_part_info \<lparr>stem = ''clip'', path_suffix = ''.mp4''\<rparr> (Fin 30) (Fin (- 10)) ''_part_'' =
     Inr []" by (simp add: ratio_30_neg10)
  from nonpositive_part_len [where part_len = "Fin (- (253 / 2 ^ 1071))" and video_len = "Fin 30"
      and vp = "\<lparr>stem = ''clip'', path_suffix = ''.mp4''\<rparr>" and suffix = "''_part_''",
      THEN conjunct2, rule_format, OF d]
  have c: "gen_split_part_info \<lparr>stem = ''clip'', path_suffix = ''.mp4''\<rparr> (Fin 30)
     (Fin (- (253 / 2 ^ 1071))) ''_part_'' = Inl OverflowError"
    unfolding o by simp
  from nonpositive_part_len [where part_len = "Fin (- 10)" and video_len = NaN
      and vp = "\<lparr>stem = ''clip'', path_suffix = ''.mp4''\<rparr>" and suffix = "''_part_''"]
  have e: "gen_split_part_info \<lparr>stem = ''clip'', path_suffix = ''.mp4''\<rparr> NaN (Fin (- 10)) ''_part_'' =
     Inl ValueError" by (simp add: n)
  from a b c d e show ?thesis by simp
qed

theorem negative_part_len_counterexample:
  "dless (Fin (- 10)) (Fin 0) \<and>
   gen_split_part_info \<lparr>stem = ''clip'', path_suffix = ''.mp4''\<rparr> (Fin 25) (Fin (- 10)) ''_part_'' =
     Inr []"
  by code_simp

text \<open>
  C5, as the code has it. With a positive part length the planner never rejects a
  duration: when the float quotient \<open>video_len / part_len\<close> is finite it raises nothing
  and returns a plan, the empty plan for every negative duration; when the quotient is
  infinite \<^verbatim>\<open>int\<close> raises \<^verbatim>\<open>OverflowError\<close>, and when it is a NaN \<^verbatim>\<open>int\<close> raises
  \<^verbatim>\<open>ValueError\<close>. The claim as written (a negative duration is reported as an error)
  fails for a duration of \<open>- 5\<close> and a part length of 10.
\<close>

theorem positive_part_len_total:
  assumes "dless (Fin 0) part_len"
  shows "\<exists>ratio. part_ratio video_len part_len = Inr ratio \<and>
     (case ratio of
        Fin r \<Rightarrow>
          (\<exists>ds. gen_split_part_info vp video_len part_len suffix = Inr ds) \<and>
          (dless video_len (Fin 0) \<longrightarrow>
             gen_split_part_info vp video_len part_len suffix = Inr [])
      | PInf \<Rightarrow> gen_split_part_info vp video_len part_len suffix = Inl OverflowError
      | NInf \<Rightarrow> gen_split_part_info vp video_len part_len suffix = Inl OverflowError
      | NaN \<Rightarrow> gen_split_part_info vp video_len part_len suffix = Inl ValueError)"
proof -
  from assms obtain ratio where ratio: "part_ratio video_len part_len = Inr ratio"
    by (cases part_len) (auto simp: part_ratio_def)
  have "case ratio of
        Fin r \<Rightarrow>
          (\<exists>ds. gen_split_part_info vp video_len part_len suffix = Inr ds) \<and>
          (dless video_len (Fin 0) \<longrightarrow>
             gen_split_part_info vp video_len part_len suffix = Inr [])
      | PInf \<Rightarrow> gen_split_part_info vp video_len part_len suffix = Inl OverflowError
      | NInf \<Rightarrow> gen_split_part_info vp video_len part_len suffix = Inl OverflowError
      | NaN \<Rightarrow> gen_split_part_info vp video_len part_len suffix = Inl ValueError"
  proof (cases ratio)
    case (Fin r)
    with ratio have r: "part_ratio video_len part_len = Inr (Fin r)" by simp
    from gen_returns [OF r, of vp suffix]
    have "\<exists>ds. gen_split_part_info vp video_len part_len suffix = Inr ds" by blast
    moreover have "gen_split_part_info vp video_len part_len suffix = Inr []"
      if "dless video_len (Fin 0)"
      using r ratio_nonpos [OF _ r] that assms by (intro nonpos_ratio_empty [of _ _ r]) simp_all
    ultimately show ?thesis using Fin by simp
  qed (use ratio gen_raises(2-4) [of video_len part_len vp suffix] in simp_all)
  with ratio show ?thesis by blast
qed

theorem positive_part_len_total_witness:
  "dless (Fin 0) (Fin 10) \<and> dless (Fin (- 20)) (Fin 0) \<and>
   gen_split_part_info \<lparr>stem = ''clip'', path_suffix = ''.mp4''\<rparr> (Fin (- 20)) (Fin 10) ''_part_'' =
     Inr [] \<and>
   dless (Fin 0) (Fin (253 / 2 ^ 1071)) \<and>
   gen_split_part_info \<lparr>stem = ''clip'', path_suffix = ''.mp4''\<rparr> (Fin 25)
     (Fin (253 / 2 ^ 1071)) ''_part_'' = Inl OverflowError"
proof -
  have h1: "dless (Fin 0) (Fin 10)" and h2: "dless (Fin 0) (Fin (253 / 2 ^ 1071))"
    by simp_all
  have o: "part_ratio (Fin 25) (Fin (253 / 2 ^ 1071)) = Inr PInf"
    by (rule tiny_part_len_overflow(1)) simp
  from positive_part_len_total [OF h1, where video_len = "Fin (- 20)"
      and vp = "\<lparr>stem = ''clip'', path_suffix = ''.mp4''\<rparr>" and suffix = "''_part_''"]
  have a: "gen_split_part_info \<lparr>stem = ''clip'', path_suffix = ''.mp4''\<rparr> (Fin (- 20)) (Fin 10) ''_part_'' =
     Inr []" by (simp add: ratio_neg20_10)
  from positive_part_len_total [OF h2, where video_len = "Fin 25"
      and vp = "\<lparr>stem = ''clip'', path_suffix = ''.mp4''\<rparr>" and suffix = "''_part_''"]
  have b: "gen_split_part_info \<lparr>stem = ''clip'', path_suffix = ''.mp4''\<rparr> (Fin 25)
     (Fin (253 / 2 ^ 1071)) ''_part_'' = Inl OverflowError"
    unfolding o by simp
  from h1 h2 a b show ?thesis by simp
qed

theorem negative_duration_counterexample:
  "dless (Fin (- 5)) (Fin 0) \<and> dless (Fin 0) (Fin 10) \<and>
   gen_split_part_info \<lparr>stem = ''clip'', path_suffix = ''.mp4''\<rparr> (Fin (- 5)) (Fin 10) ''_part_'' =
     Inr []"
  by code_simp

text \<open>
  C6, as the code has it. For \<open>0 < duration < part_len\<close> the float quotient \<open>r\<close> lies
  between 0 and 1, and the planner yields exactly one descriptor, from 0 through the end
  of the source, when the float leftover is at least one second, and no descriptor when it
  is not (unless the quotient is rounded up to 1; then the single descriptor ends at
  \<open>part_len\<close>). The claim as written (one segment, never zero) fails for a duration of
  half a second and a part length of 8.
\<close>

theorem short_source_plan:
  assumes "dless (Fin 0) duration" and "dless duration part_len"
  shows "\<exists>r l. part_ratio duration part_len = Inr (Fin r) \<and> 0 \<le> r \<and> r \<le> 1 \<and>
           leftover duration part_len = Inr l \<and>
           gen_split_part_info vp duration part_len suffix =
             Inr (if dle (Fin 1) l then [(Fin 0, None, clip_name vp (clip_id suffix 0 1))]
                  else if r < 1 then []
                  else [(Fin 0, Some (fmul (Fin 1) part_len),
                         clip_name vp (clip_id suffix 0 1))])"
proof -
  from assms obtain d where d: "duration = Fin d" "0 < d"
    by (cases duration) simp_all
  show ?thesis
  proof (cases part_len)
    case (Fin b)
    with assms(2) d have b: "d < b" by simp
    with d have x: "0 \<le> d / b" "d / b < 1" by simp_all
    from round_double_unit [OF x] obtain r where r: "round_double (d / b) = Fin r"
      and r01: "0 \<le> r" "r \<le> 1" by blast
    from r b d have ratio: "part_ratio duration (Fin b) = Inr (Fin r)"
      by (simp add: part_ratio_def)
    let ?l = "fmul (fabs (fsub (Fin r) (double_of_int (trunc_rat r)))) (Fin b)"
    note l = leftover_fin [OF ratio]
    note n = parts_total_fin [OF ratio l]
    note t = termination_fin [OF l n]
    consider "r = 0" | "r = 1" | "0 < r" "r < 1" using r01 by linarith
    then have "gen_split_part_info vp duration (Fin b) suffix =
             Inr (if dle (Fin 1) ?l then [(Fin 0, None, clip_name vp (clip_id suffix 0 1))]
                  else if r < 1 then []
                  else [(Fin 0, Some (fmul (Fin 1) (Fin b)),
                         clip_name vp (clip_id suffix 0 1))])"
    proof cases
      case 1
      then have "?l = Fin 0" by (simp add: trunc_rat_def)
      with 1 nonpos_ratio_empty [OF ratio, of vp suffix] show ?thesis by simp
    next
      case 2
      then have l0: "?l = Fin 0" by (simp add: trunc_rat_def)
      with n 2 have n1: "parts_total duration (Fin b) = Inr 1" by (simp add: trunc_rat_def)
      from termination_fin [OF l n1] l0
      have "termination_time duration (Fin b) = Inr (Some (fmul (Fin 1) (Fin b)))"
        by (simp del: fmul.simps)
      from single_part_plan [OF n1 this, of vp suffix] l0 2 show ?thesis by simp
    next
      case 3
      then have tr: "trunc_rat r = 0" and ce: "\<lceil>r\<rceil> = 1"
        by (simp_all add: trunc_rat_def floor_eq_iff ceiling_eq_iff)
      show ?thesis
      proof (cases "dle (Fin 1) ?l")
        case True
        with n ce have n1: "parts_total duration (Fin b) = Inr 1" by simp
        from t True have "termination_time duration (Fin b) = Inr None" by simp
        from single_part_plan [OF n1 this, of vp suffix] True show ?thesis by simp
      next
        case False
        with n tr have n0: "parts_total duration (Fin b) = Inr 0" by simp
        from t False n0 obtain t' where "termination_time duration (Fin b) = Inr t'" by simp
        from gen_fin [OF n0 this, of vp suffix] False 3 show ?thesis
          by (simp add: py_range_def)
      qed
    qed
    with ratio r01 l Fin show ?thesis by blast
  next
    case PInf
    with d have ratio: "part_ratio duration part_len = Inr (Fin 0)"
      by (simp add: part_ratio_def)
    from leftover_fin [OF ratio] PInf have l: "leftover duration part_len = Inr NaN"
      by (simp add: trunc_rat_def)
    from nonpos_ratio_empty [OF ratio, of vp suffix] ratio l show ?thesis by auto
  qed (use assms d in simp_all)
qed

theorem short_source_plan_witness:
  "dless (Fin 0) (Fin 5) \<and> dless (Fin 5) (Fin 10) \<and>
   gen_split_part_info \<lparr>stem = ''clip'', path_suffix = ''.mp4''\<rparr> (Fin 5) (Fin 10) ''_part_'' =
     Inr [(Fin 0, None, clip_name \<lparr>stem = ''clip'', path_suffix = ''.mp4''\<rparr> (clip_id ''_part_'' 0 1))] \<and>
   dless (Fin 0) (Fin 1) \<and> dless (Fin 1) (Fin 49) \<and>
   leftover (Fin 1) (Fin 49) = Inr (Fin (9007199254740991 / 9007199254740992)) \<and>
   gen_split_part_info \<lparr>stem = ''clip'', path_suffix = ''.mp4''\<rparr> (Fin 1) (Fin 49) ''_part_'' = Inr []"
proof -
  have h1: "dless (Fin 0) (Fin 5)" and h2: "dless (Fin 5) (Fin 10)"
    and h3: "dless (Fin 0) (Fin 1)" and h4: "dless (Fin 1) (Fin 49)" by simp_all
  from short_source_plan [OF h1 h2, of "\<lparr>stem = ''clip'', path_suffix = ''.mp4''\<rparr>" "''_part_''"]
  have a: "gen_split_part_info \<lparr>stem = ''clip'', path_suffix = ''.mp4''\<rparr> (Fin 5) (Fin 10) ''_part_'' =
     Inr [(Fin 0, None, clip_name \<lparr>stem = ''clip'', path_suffix = ''.mp4''\<rparr> (clip_id ''_part_'' 0 1))]"
    by (auto simp add: ratio_5_10 leftover_5_10)
  from short_source_plan [OF h3 h4, of "\<lparr>stem = ''clip'', path_suffix = ''.mp4''\<rparr>" "''_part_''"]
  have b: "gen_split_part_info \<lparr>stem = ''clip'', path_suffix = ''.mp4''\<rparr> (Fin 1) (Fin 49) ''_part_'' = Inr []"
    by (auto simp add: ratio_1_49 leftover_1_49)
  from h1 h2 h3 h4 a b leftover_1_49 show ?thesis by simp
qed

theorem short_source_counterexample:
  "dless (Fin 0) (Fin (1 / 2)) \<and> dless (Fin (1 / 2)) (Fin 8) \<and>
   gen_split_part_info \<lparr>stem = ''clip'', path_suffix = ''.mp4''\<rparr> (Fin (1 / 2)) (Fin 8) ''_part_'' =
     Inr []"
  using plan_half_8 by simp

text \<open>
  C7. For a duration of zero and any positive part length the planner yields the empty
  sequence of descriptors, and raises nothing.
\<close>

theorem zero_duration_empty_plan:
  assumes "dless (Fin 0) part_len"
  shows "gen_split_part_info vp (Fin 0) part_len suffix = Inr []"
proof -
  from assms have "part_ratio (Fin 0) part_len = Inr (Fin 0)"
    by (cases part_len) (simp_all add: part_ratio_def)
  then show ?thesis by (rule nonpos_ratio_empty) simp
qed

theorem zero_duration_empty_plan_witness:
  "dless (Fin 0) (Fin 10) \<and>
   gen_split_part_info \<lparr>stem = ''clip'', path_suffix = ''.mp4''\<rparr> (Fin 0) (Fin 10) ''_part_'' = Inr []"
proof -
  have h: "dless (Fin 0) (Fin 10)" by simp
  from h zero_duration_empty_plan [OF h] show ?thesis by simp
qed

text \<open>
  C8. The name of the descriptor at position \<open>i\<close> (index \<open>i + 1\<close>) is the stem of the
  source path, an underscore, the suffix token, the index, \<open>_of_\<close>, the total count
  \<^verbatim>\<open>parts_total\<close>, which is the number of descriptors, and the extension of the source
  path.
\<close>

theorem clip_name_scheme:
  assumes "gen_split_part_info vp video_len part_len suffix = Inr ds" and "i < length ds"
  shows "parts_total video_len part_len = Inr (int (length ds)) \<and>
    name_of (ds ! i) =
      stem vp @ ''_'' @ suffix @ str_int (int i + 1) @ ''_of_'' @
      str_int (int (length ds)) @ path_suffix vp"
  using gen_nth [OF assms] gen_total [OF assms]
  by (auto simp add: split_part_name clip_name_def clip_id_def)

theorem clip_name_scheme_witness:
  "gen_split_part_info \<lparr>stem = ''clip'', path_suffix = ''.mp4''\<rparr> (Fin 25) (Fin 10) ''_part_'' =
     Inr [(Fin 0, Some (Fin 10), ''clip__part_1_of_3.mp4''),
          (Fin 10, Some (Fin 20), ''clip__part_2_of_3.mp4''),
          (Fin 20, None, ''clip__part_3_of_3.mp4'')] \<and>
   parts_total (Fin 25) (Fin 10) = Inr 3 \<and>
   name_of (Fin 10, Some (Fin 20), ''clip__part_2_of_3.mp4'') =
     ''clip'' @ ''_'' @ ''_part_'' @ str_int 2 @ ''_of_'' @ str_int 3 @ ''.mp4''"
  using clip_name_scheme [OF plan_25_10, of 1] plan_25_10 by simp

text \<open>
  C9. The yielded tuples carry index and total inside the clip name only. In every plan the
  names are those of the indices \<open>1, 2, ..., total\<close> in ascending order, every name is
  built with the same total, which is the number of descriptors, and no name occurs twice.
\<close>

theorem index_total_consistent:
  assumes "gen_split_part_info vp video_len part_len suffix = Inr ds"
  shows "map name_of ds =
           map (\<lambda>idx. stem vp @ ''_'' @ suffix @ str_int idx @ ''_of_'' @
                      str_int (int (length ds)) @ path_suffix vp) [1..int (length ds)] \<and>
         distinct (map name_of ds)"
proof -
  let ?n = "length ds"
  let ?f = "\<lambda>idx. stem vp @ ''_'' @ suffix @ str_int idx @ ''_of_'' @
                 str_int (int ?n) @ path_suffix vp"
  have nm: "name_of (ds ! i) = ?f (int i + 1)" if "i < ?n" for i
    using gen_nth [OF assms that]
    by (auto simp add: split_part_name clip_name_def clip_id_def)
  have eq: "map name_of ds = map ?f [1..int ?n]"
    by (rule nth_equalityI) (simp_all add: upto_from_1 nm)
  have "distinct (map name_of ds)"
    unfolding distinct_conv_nth
  proof (intro allI impI)
    fix i j
    assume i: "i < length (map name_of ds)" and j: "j < length (map name_of ds)" and ne: "i \<noteq> j"
    show "map name_of ds ! i \<noteq> map name_of ds ! j"
    proof
      assume "map name_of ds ! i = map name_of ds ! j"
      with i j have "?f (int i + 1) = ?f (int j + 1)" by (simp add: nm)
      then have "str_int (int i + 1) = str_int (int j + 1)" by simp
      then have "int i + 1 = int j + 1" by (intro str_int_inj_nonneg) simp_all
      with ne show False by simp
    qed
  qed
  with eq show ?thesis by simp
qed

theorem index_total_consistent_witness:
  "gen_split_part_info \<lparr>stem = ''clip'', path_suffix = ''.mp4''\<rparr> (Fin 25) (Fin 10) ''_part_'' =
     Inr [(Fin 0, Some (Fin 10), ''clip__part_1_of_3.mp4''),
          (Fin 10, Some (Fin 20), ''clip__part_2_of_3.mp4''),
          (Fin 20, None, ''clip__part_3_of_3.mp4'')] \<and>
   map name_of [(Fin 0, Some (Fin 10), ''clip__part_1_of_3.mp4''),
                (Fin 10, Some (Fin 20), ''clip__part_2_of_3.mp4''),
                (Fin 20, None, ''clip__part_3_of_3.mp4'')] =
     map (\<lambda>idx. ''clip'' @ ''_'' @ ''_part_'' @ str_int idx @ ''_of_'' @
                str_int (int (length [(Fin 0, Some (Fin 10), ''clip__part_1_of_3.mp4''),
                                      (Fin 10, Some (Fin 20), ''clip__part_2_of_3.mp4''),
                                      (Fin 20, None, ''clip__part_3_of_3.mp4'')])) @ ''.mp4'')
         [1..int (length [(Fin 0, Some (Fin 10), ''clip__part_1_of_3.mp4''),
                          (Fin 10, Some (Fin 20), ''clip__part_2_of_3.mp4''),
                          (Fin 20, None, ''clip__part_3_of_3.mp4'')])] \<and>
   distinct (map name_of [(Fin 0, Some (Fin 10), ''clip__part_1_of_3.mp4''),
                          (Fin 10, Some (Fin 20), ''clip__part_2_of_3.mp4''),
                          (Fin 20, None, ''clip__part_3_of_3.mp4'')])"
  by (rule conjI [OF plan_25_10
        index_total_consistent [OF plan_25_10, unfolded video_path.select_convs]])

text \<open>
  C10, as the code has it. The descriptor at position \<open>i\<close> (index \<open>i + 1\<close>) starts at the
  float product \<open>part_len * i\<close>; when it is not the final one it stops at the float
  product \<open>part_len * (i + 1)\<close>, which is exactly where the next descriptor starts. The
  two products are rounded, so the length of the segment is \<open>part_len\<close> up to a relative
  error of \<open>(2 * i + 1) / 2 ^ 53\<close> (for a part length of at least \<open>2 ^ - 1022\<close>, an index
  below \<open>2 ^ 53\<close> and a finite stop offset), not exactly. The claim as written (every
  segment but the last has length exactly \<open>partLength\<close>) fails for a part length of
  \<^verbatim>\<open>0.1\<close> and a duration of half a second: the third segment runs from \<^verbatim>\<open>0.2\<close> to
  \<^verbatim>\<open>0.30000000000000004\<close>.
\<close>

theorem part_boundaries:
  assumes "gen_split_part_info vp duration part_len suffix = Inr ds" and "i < length ds"
  shows "start_of (ds ! i) = fmul part_len (double_of_int (int i)) \<and>
         (i + 1 < length ds \<longrightarrow>
            stop_of (ds ! i) = Some (fmul part_len (double_of_int (int i + 1))) \<and>
            stop_of (ds ! i) = Some (start_of (ds ! (i + 1))) \<and>
            (\<forall>p. part_len = Fin p \<and> 1 / 2 ^ 1022 \<le> p \<and> int i + 1 < 2 ^ 53 \<and>
                 p * of_int (int i + 1) < 2 ^ 1023 \<longrightarrow>
               (\<exists>s e. start_of (ds ! i) = Fin s \<and> stop_of (ds ! i) = Some (Fin e) \<and>
                      \<bar>e - s - p\<bar> \<le> p * of_int (2 * int i + 1) / 2 ^ 53)))"
proof -
  have s: "start_of (ds ! j) = fmul part_len (double_of_int (int j))" if "j < length ds" for j
    using gen_nth [OF assms(1) that] by (auto simp add: split_part_start)
  have e: "stop_of (ds ! i) = Some (fmul part_len (double_of_int (int i + 1)))"
    if "i + 1 < length ds"
  proof -
    from that have "int i + 1 \<noteq> int (length ds)" by linarith
    with gen_nth [OF assms] show ?thesis by (auto simp add: split_part_stop)
  qed
  show ?thesis
  proof (intro conjI impI allI)
    show "start_of (ds ! i) = fmul part_len (double_of_int (int i))" using s [OF assms(2)] .
  next
    assume a: "i + 1 < length ds"
    show "stop_of (ds ! i) = Some (fmul part_len (double_of_int (int i + 1)))" using e [OF a] .
    have "int (i + 1) = int i + 1" by simp
    with e [OF a] s [OF a] show "stop_of (ds ! i) = Some (start_of (ds ! (i + 1)))"
      by (simp only:)
  next
    fix p
    assume a: "i + 1 < length ds"
      and h: "part_len = Fin p \<and> 1 / 2 ^ 1022 \<le> p \<and> int i + 1 < 2 ^ 53 \<and>
              p * of_int (int i + 1) < 2 ^ 1023"
    then have pl: "part_len = Fin p" and p: "1 / 2 ^ 1022 \<le> p" and i53: "int i + 1 < 2 ^ 53"
      and b1: "p * of_int (int i + 1) < 2 ^ 1023" by simp_all
    have p0: "0 < p" using p by (rule normal_pos)
    define x where "x = p * of_int (int i)"
    have x1: "p * of_int (int i + 1) = x + p" by (simp add: x_def algebra_simps)
    have x0: "0 \<le> x" using p0 by (simp add: x_def)
    from b1 p0 have b0: "p * of_int (int i) < 2 ^ 1023" unfolding x1 x_def by linarith
    have j0: "0 \<le> int i" "int i < 2 ^ 53" using i53 by simp_all
    have j1: "0 \<le> int i + 1" by simp
    from offset_bounds [OF p j0 b0] obtain s'
      where s': "fmul (Fin p) (double_of_int (int i)) = Fin s'"
        and sb: "x - x / 2 ^ 53 \<le> s'" "s' \<le> x + x / 2 ^ 53" unfolding x_def by blast
    from offset_bounds [OF p j1 i53 b1] obtain e'
      where e': "fmul (Fin p) (double_of_int (int i + 1)) = Fin e'"
        and eb: "(x + p) - (x + p) / 2 ^ 53 \<le> e'" "e' \<le> (x + p) + (x + p) / 2 ^ 53"
      unfolding x1 by blast
    have sd: "(x + p) / 2 ^ 53 = x / 2 ^ 53 + p / 2 ^ 53" by (rule add_divide_distrib)
    have "p * of_int (2 * int i + 1) = 2 * x + p" by (simp add: x_def algebra_simps)
    then have "p * of_int (2 * int i + 1) / 2 ^ 53 = 2 * (x / 2 ^ 53) + p / 2 ^ 53"
      by (simp add: add_divide_distrib)
    moreover have "\<bar>e' - s' - p\<bar> \<le> 2 * (x / 2 ^ 53) + p / 2 ^ 53"
      using sb eb unfolding sd by linarith
    ultimately have "\<bar>e' - s' - p\<bar> \<le> p * of_int (2 * int i + 1) / 2 ^ 53" by (simp only:)
    with s [OF assms(2)] e [OF a] s' e' pl
    show "\<exists>s e. start_of (ds ! i) = Fin s \<and> stop_of (ds ! i) = Some (Fin e) \<and>
                \<bar>e - s - p\<bar> \<le> p * of_int (2 * int i + 1) / 2 ^ 53"
      by (simp only:) blast
  qed
qed

theorem part_boundaries_witness:
  "gen_split_part_info \<lparr>stem = ''clip'', path_suffix = ''.mp4''\<rparr> (Fin 25) (Fin 10) ''_part_'' =
     Inr [(Fin 0, Some (Fin 10), ''clip__part_1_of_3.mp4''),
          (Fin 10, Some (Fin 20), ''clip__part_2_of_3.mp4''),
          (Fin 20, None, ''clip__part_3_of_3.mp4'')] \<and>
   start_of (Fin 10, Some (Fin 20), ''clip__part_2_of_3.mp4'') = fmul (Fin 10) (double_of_int 1) \<and>
   stop_of (Fin 10, Some (Fin 20), ''clip__part_2_of_3.mp4'') =
     Some (fmul (Fin 10) (double_of_int 2)) \<and>
   stop_of (Fin 10, Some (Fin 20), ''clip__part_2_of_3.mp4'') =
     Some (start_of (Fin 20, None, ''clip__part_3_of_3.mp4'')) \<and>
   (1::rat) / 2 ^ 1022 \<le> 10 \<and> (10::rat) * 2 < 2 ^ 1023 \<and>
   (\<exists>s e. start_of (Fin 10, Some (Fin 20), ''clip__part_2_of_3.mp4'') = Fin s \<and>
          stop_of (Fin 10, Some (Fin 20), ''clip__part_2_of_3.mp4'') = Some (Fin e) \<and>
          \<bar>e - s - 10\<bar> \<le> 10 * 3 / 2 ^ 53)"
proof -
  have m1: "fmul (Fin 10) (double_of_int 1) = Fin 10" by code_simp
  have m2: "fmul (Fin 10) (double_of_int 2) = Fin 20" by code_simp
  from part_boundaries [OF plan_25_10, of 1] plan_25_10 m1 m2
  show ?thesis by (simp add: start_of_def stop_of_def del: fmul.simps)
qed

theorem part_length_counterexample:
  "gen_split_part_info \<lparr>stem = ''clip'', path_suffix = ''.mp4''\<rparr> (Fin (1 / 2))
       (Fin (3602879701896397 / 36028797018963968)) ''_part_'' =
     Inr [(Fin 0, Some (Fin (3602879701896397 / 36028797018963968)), ''clip__part_1_of_5.mp4''),
          (Fin (3602879701896397 / 36028797018963968),
           Some (Fin (3602879701896397 / 18014398509481984)), ''clip__part_2_of_5.mp4''),
          (Fin (3602879701896397 / 18014398509481984),
           Some (Fin (1351079888211149 / 4503599627370496)), ''clip__part_3_of_5.mp4''),
          (Fin (1351079888211149 / 4503599627370496),
           Some (Fin (3602879701896397 / 9007199254740992)), ''clip__part_4_of_5.mp4''),
          (Fin (3602879701896397 / 9007199254740992), Some (Fin (1 / 2)),
           ''clip__part_5_of_5.mp4'')] \<and>
   (1351079888211149 / 4503599627370496 :: rat) - 3602879701896397 / 18014398509481984 \<noteq>
     3602879701896397 / 36028797018963968"
  using plan_half_tenth by simp

end
